theory Spec2Isabelle
  imports Main "HOL-Library.Sublist"
begin

section \<open>Text utilities of CarCheckerAI.py\<close>

text \<open>
  \<open>chunk_text\<close> is the same function in \<open>CarCheckerAI.py\<close> and in
  \<open>scrape_search_and_summarize.py\<close>. A source name that starts with an underscore is
  written without it.

  Python strings are modelled as \<^typ>\<open>string\<close>, one \<^typ>\<open>char\<close> per character; \<open>len\<close> is
  \<^const>\<open>length\<close>. The characters that \<open>str.strip\<close> removes are the ones \<open>str.isspace\<close>
  accepts; below code point 256 these are 9-13, 28-32, 133 and 160.
\<close>

definition is_space :: "char \<Rightarrow> bool" where
  "is_space c = (of_char c \<in> {9, 10, 11, 12, 13, 28, 29, 30, 31, 32, 133, 160 :: nat})"

definition lstrip :: "string \<Rightarrow> string" where
  "lstrip s = dropWhile is_space s"

definition rstrip :: "string \<Rightarrow> string" where
  "rstrip s = rev (dropWhile is_space (rev s))"

definition strip :: "string \<Rightarrow> string" where
  "strip s = rstrip (lstrip s)"

text \<open>
  Python slicing \<open>xs[lo:hi]\<close> with step 1: a negative index counts from the end, and every
  index is clamped to the range of the sequence, so a slice never raises.
\<close>

definition clamp_index :: "int \<Rightarrow> nat \<Rightarrow> nat" where
  "clamp_index i n = (if i < 0 then nat (max 0 (i + int n)) else min (nat i) n)"

definition py_slice :: "int option \<Rightarrow> int option \<Rightarrow> 'a list \<Rightarrow> 'a list" where
  "py_slice lo hi xs =
     (let n = length xs;
          l = (case lo of None \<Rightarrow> 0 | Some i \<Rightarrow> clamp_index i n);
          h = (case hi of None \<Rightarrow> n | Some j \<Rightarrow> clamp_index j n)
      in take (h - l) (drop l xs))"

text \<open>\<open>s.rfind(sub)\<close>: the highest index at which \<open>sub\<close> occurs in \<open>s\<close>, or \<open>-1\<close>.\<close>

definition occurs_at :: "string \<Rightarrow> string \<Rightarrow> nat \<Rightarrow> bool" where
  "occurs_at s sub i = (take (length sub) (drop i s) = sub)"

definition rfind :: "string \<Rightarrow> string \<Rightarrow> int" where
  "rfind s sub =
     (case filter (occurs_at s sub) (rev [0..<Suc (length s)]) of
        [] \<Rightarrow> - 1
      | i # _ \<Rightarrow> int i)"

definition para_break :: string where
  "para_break = [CHR 0x0A, CHR 0x0A]"

subsection \<open>chunk_text\<close>

text \<open>
  The \<open>while text:\<close> loop of \<open>chunk_text\<close>, with the list \<open>chunks\<close> as accumulator. The loop
  has no bound in the source, so it is a partial function: \<open>None\<close> means that the loop
  does not return.
\<close>

partial_function (option) chunk_loop :: "int \<Rightarrow> string \<Rightarrow> string list \<Rightarrow> string list option" where
  "chunk_loop max_chars text chunks =
     (if text = [] then Some chunks
      else
        let chunk0 = py_slice None (Some max_chars) text;
            cut = rfind chunk0 para_break;
            chunk = (if cut > max_chars div 2 then py_slice None (Some cut) text else chunk0)
        in chunk_loop max_chars
             (lstrip (py_slice (Some (int (length chunk))) None text))
             (chunks @ [strip chunk]))"

definition chunk_text :: "string \<Rightarrow> int \<Rightarrow> string list option" where
  "chunk_text text max_chars =
     (let text1 = strip text
      in if text1 = [] then Some [] else chunk_loop max_chars text1 [])"

subsection \<open>_compress_for_single_request\<close>

definition sep_start :: string where
  "sep_start = para_break @ ''--START--'' @ para_break"

definition sep_middle :: string where
  "sep_middle = para_break @ ''--MIDDLE--'' @ para_break"

definition sep_end :: string where
  "sep_end = para_break @ ''--END--'' @ para_break"

definition compress_for_single_request :: "string \<Rightarrow> int \<Rightarrow> string" where
  "compress_for_single_request text max_chars =
     (if text = [] then []
      else
        let text1 = strip text in
        if int (length text1) \<le> max_chars then text1
        else
          let part = max_chars div 3;
              start = py_slice None (Some part) text1;
              middle_index = int (length text1) div 2;
              middle = py_slice (Some (middle_index - part div 2))
                                (Some (middle_index + part div 2)) text1;
              end_part = py_slice (Some (- part)) None text1
          in sep_start @ start @ sep_middle @ middle @ sep_end @ end_part)"

section \<open>Python values of the search and completion backends\<close>

text \<open>
  The raw results of the search backend are dynamically typed. A value is \<open>None\<close>, a
  \<open>bool\<close>, an \<open>int\<close>, a \<open>str\<close>, a list, a dict with string keys (in insertion order), an
  object with a truth value and named attributes, or a bound method without arguments,
  given by what a call returns (\<open>None\<close> when the call raises). Floats are left out.
\<close>

datatype pyval =
    PNone
  | PBool bool
  | PInt int
  | PStr string
  | PList "pyval list"
  | PDict "(string \<times> pyval) list"
  | PObj bool "(string \<times> pyval) list"
  | PMeth "pyval option"

datatype error = AttributeError | TypeError | BackendError

type_synonym pydict = "(string \<times> pyval) list"

fun truthy :: "pyval \<Rightarrow> bool" where
  "truthy PNone = False"
| "truthy (PBool b) = b"
| "truthy (PInt i) = (i \<noteq> 0)"
| "truthy (PStr s) = (s \<noteq> [])"
| "truthy (PList xs) = (xs \<noteq> [])"
| "truthy (PDict d) = (d \<noteq> [])"
| "truthy (PObj b attrs) = b"
| "truthy (PMeth r) = True"

text \<open>\<open>a or b\<close> on values, and on computations that may raise (\<open>b\<close> is used only if \<open>a\<close>
  returns a false value).\<close>

definition py_or :: "pyval \<Rightarrow> pyval \<Rightarrow> pyval" where
  "py_or a b = (if truthy a then a else b)"

definition or_else :: "error + pyval \<Rightarrow> error + pyval \<Rightarrow> error + pyval" where
  "or_else a b = (case a of Inl e \<Rightarrow> Inl e | Inr v \<Rightarrow> if truthy v then Inr v else b)"

definition bindE :: "error + 'a \<Rightarrow> ('a \<Rightarrow> error + 'b) \<Rightarrow> error + 'b" where
  "bindE m f = (case m of Inl e \<Rightarrow> Inl e | Inr v \<Rightarrow> f v)"

definition dict_get :: "pydict \<Rightarrow> string \<Rightarrow> pyval \<Rightarrow> pyval" where
  "dict_get d k dflt = (case map_of d k of None \<Rightarrow> dflt | Some v \<Rightarrow> v)"

text \<open>
  \<open>x.get(k, dflt)\<close> on any value: only a dict has the method. On an object the lookup
  of \<open>get\<close> raises \<open>AttributeError\<close> when the attribute is absent, and the call with
  arguments raises \<open>TypeError\<close> when it is there.
\<close>

fun py_get :: "pyval \<Rightarrow> string \<Rightarrow> pyval \<Rightarrow> error + pyval" where
  "py_get (PDict d) k dflt = Inr (dict_get d k dflt)"
| "py_get (PObj b attrs) k dflt =
     (case map_of attrs ''get'' of None \<Rightarrow> Inl AttributeError | Some g \<Rightarrow> Inl TypeError)"
| "py_get v k dflt = Inl AttributeError"

text \<open>
  \<open>getattr(x, name, dflt)\<close> and \<open>hasattr(x, name)\<close>, for the names the program probes
  (\<open>markdown\<close>, \<open>url\<close>, \<open>sourceURL\<close>, \<open>metadata\<close>, \<open>source_url\<close>, \<open>og_url\<close>, \<open>web\<close>,
  \<open>model_dump\<close>, \<open>dict\<close>): none of them is an attribute of a builtin value.
\<close>

fun attr_lookup :: "pyval \<Rightarrow> string \<Rightarrow> pyval option" where
  "attr_lookup (PObj b attrs) name = map_of attrs name"
| "attr_lookup v name = None"

definition py_getattr :: "pyval \<Rightarrow> string \<Rightarrow> pyval \<Rightarrow> pyval" where
  "py_getattr x name dflt = (case attr_lookup x name of None \<Rightarrow> dflt | Some v \<Rightarrow> v)"

definition py_hasattr :: "pyval \<Rightarrow> string \<Rightarrow> bool" where
  "py_hasattr x name = (attr_lookup x name \<noteq> None)"

text \<open>
  \<open>try: return obj.name() except Exception: pass\<close>, guarded by \<open>hasattr(obj, name)\<close>: the
  value returned, or \<open>None\<close> when the attribute is absent, is not callable, or raises.
\<close>

definition try_method :: "pyval \<Rightarrow> string \<Rightarrow> pyval option" where
  "try_method obj name =
     (case attr_lookup obj name of
        Some (PMeth r) \<Rightarrow> r
      | _ \<Rightarrow> None)"

definition model_to_dict :: "pyval \<Rightarrow> pyval" where
  "model_to_dict obj =
     (if \<not> truthy obj then PDict []
      else case try_method obj ''model_dump'' of
          Some v \<Rightarrow> v
        | None \<Rightarrow> (case try_method obj ''dict'' of Some v \<Rightarrow> v | None \<Rightarrow> PDict []))"

section \<open>The result normalizer\<close>

text \<open>\<open>d.get("markdown") or (d.get("data") or {}).get("markdown", "") or ""\<close>\<close>

definition markdown_chain :: "pyval \<Rightarrow> error + pyval" where
  "markdown_chain d =
     or_else (py_get d ''markdown'' PNone)
       (or_else
          (bindE (py_get d ''data'' PNone)
             (\<lambda>x. py_get (py_or x (PDict [])) ''markdown'' (PStr [])))
          (Inr (PStr [])))"

definition safe_get_markdown :: "pyval \<Rightarrow> error + pyval" where
  "safe_get_markdown item =
     (if \<not> truthy item then Inr (PStr [])
      else case item of
          PDict d \<Rightarrow> markdown_chain item
        | _ \<Rightarrow>
          (case py_getattr item ''markdown'' PNone of
             PStr md \<Rightarrow> Inr (PStr md)
           | _ \<Rightarrow>
             if py_hasattr item ''model_dump'' \<or> py_hasattr item ''dict''
             then markdown_chain (model_to_dict item)
             else Inr (PStr [])))"

text \<open>\<open>(d.get("metadata") or {}).get(k)\<close>\<close>

definition metadata_get :: "pyval \<Rightarrow> string \<Rightarrow> error + pyval" where
  "metadata_get d k =
     bindE (py_get d ''metadata'' PNone) (\<lambda>m. py_get (py_or m (PDict [])) k PNone)"

definition url_chain :: "pyval \<Rightarrow> error + pyval" where
  "url_chain d =
     or_else (py_get d ''url'' PNone)
       (or_else (py_get d ''sourceURL'' PNone)
          (or_else (metadata_get d ''sourceURL'')
             (or_else (metadata_get d ''url'')
                (metadata_get d ''source_url''))))"

definition safe_get_url :: "pyval \<Rightarrow> error + pyval" where
  "safe_get_url item =
     (if \<not> truthy item then Inr PNone
      else case item of
          PDict d \<Rightarrow> url_chain item
        | _ \<Rightarrow>
          let url = py_or (py_getattr item ''url'' PNone) (py_getattr item ''sourceURL'' PNone) in
          if truthy url then Inr url
          else
            let md = py_getattr item ''metadata'' PNone in
            if truthy md
            then Inr (py_or (py_getattr md ''source_url'' PNone)
                       (py_or (py_getattr md ''sourceURL'' PNone)
                          (py_or (py_getattr md ''url'' PNone)
                             (py_getattr md ''og_url'' PNone))))
            else if py_hasattr item ''model_dump'' \<or> py_hasattr item ''dict''
            then url_chain (model_to_dict item)
            else Inr PNone)"

text \<open>
  \<open>normalize_results\<close>. The last branch runs under \<open>try ... except Exception: return []\<close>.
\<close>

definition normalize_results :: "pyval \<Rightarrow> pyval" where
  "normalize_results results =
     (case results of
        PList xs \<Rightarrow> results
      | PDict d \<Rightarrow> py_or (dict_get d ''data'' PNone) (py_or (dict_get d ''web'' PNone) results)
      | _ \<Rightarrow>
        if py_hasattr results ''web''
        then py_or (py_getattr results ''web'' PNone) (PList [])
        else
          (case or_else (py_get (model_to_dict results) ''data'' PNone)
                  (or_else (py_get (model_to_dict results) ''web'' PNone) (Inr (PList []))) of
             Inl e \<Rightarrow> PList []
           | Inr v \<Rightarrow> v))"

section \<open>Module state and backends\<close>

text \<open>
  Dicts that the program mutates live in a store, addressed by references, and a dict
  holds a reference for each key: the objects stored under the keys live in the store
  as cells. The module global \<open>DEFAULT_SCRAPE_OPTS\<close> is a reference to a dict.
  \<open>dict.copy()\<close> is shallow: it allocates a new dict that holds the same references, so
  the copy shares the objects under its keys with the original. A cell holds the whole
  value of its object, so a mutation of that object, such as \<open>opts["formats"].append(x)\<close>,
  is a write to the cell. The state also records, in order, the requests sent to the
  completion backend and the number of searches issued. Output printed on the way is
  not modelled.
\<close>

datatype request =
    SummarizeDoc string pyval
  | ExtractSpecs "(pyval \<times> pyval) list"
  | Synthesize string "(pyval \<times> pyval) list" string

type_synonym refdict = "(string \<times> nat) list"

record pstate =
  dicts :: "nat \<Rightarrow> refdict"
  cells :: "nat \<Rightarrow> pyval"
  next_ref :: nat
  genai_calls :: "request list"
  searches :: nat

definition DEFAULT_SCRAPE_OPTS :: nat where
  "DEFAULT_SCRAPE_OPTS = 0"


text \<open>The state after the module has been loaded: the default options and their objects.\<close>

definition module_init :: pstate where
  "module_init =
     \<lparr>dicts = (\<lambda>r. [])(DEFAULT_SCRAPE_OPTS :=
        [(''formats'', 0), (''only_main_content'', 1), (''timeout'', 2), (''location'', 3),
         (''parsers'', 4)]),
      cells = (\<lambda>c. PNone)
        (0 := PList [PStr ''markdown'', PStr ''links''],
         1 := PBool True,
         2 := PInt 120000,
         3 := PDict [(''languages'', PList [PStr ''en''])],
         4 := PList []),
      next_ref = 1, genai_calls = [], searches = 0\<rparr>"

text \<open>The contents of a dict, with the value of the object under each key.\<close>

definition dict_value :: "pstate \<Rightarrow> nat \<Rightarrow> pydict" where
  "dict_value s r = map (\<lambda>kc. (fst kc, cells s (snd kc))) (dicts s r)"

definition dict_copy :: "nat \<Rightarrow> pstate \<Rightarrow> nat \<times> pstate" where
  "dict_copy r s =
     (next_ref s, s\<lparr>dicts := (dicts s)(next_ref s := dicts s r), next_ref := Suc (next_ref s)\<rparr>)"

definition dict_set :: "(string \<times> 'a) list \<Rightarrow> string \<Rightarrow> 'a \<Rightarrow> (string \<times> 'a) list" where
  "dict_set d k v =
     (if k \<in> set (map fst d) then map (\<lambda>(k', v'). if k' = k then (k', v) else (k', v')) d
      else d @ [(k, v)])"

text \<open>
  \<open>d.update(other)\<close>, where \<open>other\<close> is given by its entries: the copy receives the
  references that the caller's dict holds.
\<close>

definition dict_update :: "nat \<Rightarrow> refdict \<Rightarrow> pstate \<Rightarrow> pstate" where
  "dict_update r other s =
     s\<lparr>dicts := (dicts s)(r := foldl (\<lambda>d (k, v). dict_set d k v) (dicts s r) other)\<rparr>"

text \<open>
  The external collaborators. \<open>firecrawl_search\<close> receives the number of earlier
  searches, the query, the limit and the contents of the options dict, and returns the
  raw response or raises. The call is handed the options dict itself, not a copy:
  \<open>search_writes\<close> is what the call does to the dicts and the cells of the store, given
  the same arguments and the reference of the options dict. \<open>generate_content\<close> receives the number of earlier requests
  and the request, and returns what \<open>getattr(resp, "text", repr(resp))\<close> reads from the
  response (a string, or \<open>None\<close> for a response whose text is \<open>None\<close>) or raises. A request
  stands for its prompt: it holds the values interpolated into the prompt template.
  \<open>json_loads\<close> is \<open>None\<close> where \<open>json.loads\<close> raises; \<open>json_dumps\<close> is \<open>json.dumps\<close> with
  \<open>indent=2\<close>, which the program applies to parsed JSON or to the raw-text wrapper only.
\<close>

record world =
  firecrawl_search :: "nat \<Rightarrow> string \<Rightarrow> int \<Rightarrow> pydict \<Rightarrow> error + pyval"
  search_writes :: "nat \<Rightarrow> string \<Rightarrow> int \<Rightarrow> nat
     \<Rightarrow> (nat \<Rightarrow> refdict) \<times> (nat \<Rightarrow> pyval) \<Rightarrow> (nat \<Rightarrow> refdict) \<times> (nat \<Rightarrow> pyval)"
  generate_content :: "nat \<Rightarrow> request \<Rightarrow> error + string option"
  json_loads :: "pyval \<Rightarrow> pyval option"
  json_dumps :: "pyval \<Rightarrow> string"

definition response_text :: "string option \<Rightarrow> pyval" where
  "response_text r = (case r of None \<Rightarrow> PNone | Some t \<Rightarrow> PStr t)"

definition generate :: "world \<Rightarrow> request \<Rightarrow> pstate \<Rightarrow> (error + pyval) \<times> pstate" where
  "generate w req s =
     (case generate_content w (length (genai_calls s)) req of
        Inl e \<Rightarrow> Inl e
      | Inr r \<Rightarrow> Inr (response_text r),
      s\<lparr>genai_calls := genai_calls s @ [req]\<rparr>)"

definition search :: "world \<Rightarrow> string \<Rightarrow> int \<Rightarrow> nat \<Rightarrow> pstate \<Rightarrow> (error + pyval) \<times> pstate" where
  "search w query limit opts s =
     (firecrawl_search w (searches s) query limit (dict_value s opts),
      s\<lparr>dicts := fst (search_writes w (searches s) query limit opts (dicts s, cells s)),
        cells := snd (search_writes w (searches s) query limit opts (dicts s, cells s)),
        searches := Suc (searches s)\<rparr>)"

section \<open>Summarization calls\<close>

text \<open>
  \<open>summarize_document\<close>: no call for a false \<open>md_text\<close>; \<open>text.strip()\<close> inside the
  compressor raises \<open>AttributeError\<close> for a true value that is not a string.
\<close>

definition summarize_document :: "world \<Rightarrow> pyval \<Rightarrow> pyval \<Rightarrow> pstate \<Rightarrow> (error + pyval) \<times> pstate" where
  "summarize_document w md_text url s =
     (if \<not> truthy md_text then (Inr PNone, s)
      else case md_text of
          PStr t \<Rightarrow> generate w (SummarizeDoc (compress_for_single_request t 20000) url) s
        | _ \<Rightarrow> (Inl AttributeError, s))"

definition extract_specs_from_docs ::
  "world \<Rightarrow> pyval list \<Rightarrow> pyval list \<Rightarrow> pstate \<Rightarrow> (error + pyval) \<times> pstate" where
  "extract_specs_from_docs w specs_texts urls s =
     (case generate w (ExtractSpecs (zip urls specs_texts)) s of
        (Inl e, s') \<Rightarrow> (Inl e, s')
      | (Inr text, s') \<Rightarrow>
          (case json_loads w text of
             Some parsed \<Rightarrow> (Inr parsed, s')
           | None \<Rightarrow> (Inr (PDict [(''raw'', text)]), s')))"

section \<open>The pipeline orchestrator\<close>

text \<open>\<open>for item in items\<close>: the elements of a list, the keys of a dict, the characters of
  a string; anything else is not iterable.\<close>

fun py_iter :: "pyval \<Rightarrow> error + pyval list" where
  "py_iter (PList xs) = Inr xs"
| "py_iter (PDict d) = Inr (map (\<lambda>kv. PStr (fst kv)) d)"
| "py_iter (PStr t) = Inr (map (\<lambda>c. PStr [c]) t)"
| "py_iter v = Inl TypeError"

text \<open>\<open>for s in SpecsItems[:specLimit]\<close>: only lists and strings can be sliced.\<close>

fun py_iter_prefix :: "pyval \<Rightarrow> int \<Rightarrow> error + pyval list" where
  "py_iter_prefix (PList xs) n = Inr (py_slice None (Some n) xs)"
| "py_iter_prefix (PStr t) n = Inr (map (\<lambda>c. PStr [c]) (py_slice None (Some n) t))"
| "py_iter_prefix v n = Inl TypeError"

type_synonym summary = "pyval \<times> pyval"

text \<open>The loop over the review results; a summary is the pair of \<open>url\<close> and \<open>summary\<close>.\<close>

fun doc_loop ::
  "world \<Rightarrow> int \<Rightarrow> pyval list \<Rightarrow> summary list \<Rightarrow> pstate \<Rightarrow> (error + summary list) \<times> pstate" where
  "doc_loop w doc_limit [] summaries s = (Inr summaries, s)"
| "doc_loop w doc_limit (item # items) summaries s =
     (if int (length summaries) \<ge> doc_limit then (Inr summaries, s)
      else case safe_get_url item of
          Inl e \<Rightarrow> (Inl e, s)
        | Inr url \<Rightarrow>
          (case safe_get_markdown item of
             Inl e \<Rightarrow> (Inl e, s)
           | Inr md \<Rightarrow>
             if \<not> truthy md then doc_loop w doc_limit items summaries s
             else
               (case summarize_document w md url s of
                  (Inl e, s') \<Rightarrow> (Inl e, s')
                | (Inr doc_summary, s') \<Rightarrow>
                    if truthy doc_summary
                    then doc_loop w doc_limit items (summaries @ [(url, doc_summary)]) s'
                    else doc_loop w doc_limit items summaries s')))"

text \<open>The loop over the specification results, collecting \<open>specs_texts\<close> and \<open>specs_urls\<close>.\<close>

fun spec_loop :: "pyval list \<Rightarrow> pyval list \<Rightarrow> pyval list \<Rightarrow> error + pyval list \<times> pyval list" where
  "spec_loop [] specs_texts specs_urls = Inr (specs_texts, specs_urls)"
| "spec_loop (x # xs) specs_texts specs_urls =
     (case safe_get_url x of
        Inl e \<Rightarrow> Inl e
      | Inr url \<Rightarrow>
        (case safe_get_markdown x of
           Inl e \<Rightarrow> Inl e
         | Inr md \<Rightarrow>
           if truthy md
           then spec_loop xs (specs_texts @ [md]) (specs_urls @ [py_or url (PStr ''unknown'')])
           else spec_loop xs specs_texts specs_urls))"

text \<open>\<open>if isinstance(items, dict) and "web" in items: items = items["web"]\<close>\<close>

definition unwrap_web :: "pyval \<Rightarrow> pyval" where
  "unwrap_web items =
     (case items of
        PDict d \<Rightarrow> (case map_of d ''web'' of Some v \<Rightarrow> v | None \<Rightarrow> items)
      | _ \<Rightarrow> items)"

text \<open>
  The part of \<open>search_and_summarize\<close> after the two searches: it receives the two raw
  responses and \<open>doc_limit\<close>.
\<close>

definition summarize_results ::
  "world \<Rightarrow> string \<Rightarrow> int \<Rightarrow> string option \<Rightarrow> int \<Rightarrow> pyval \<Rightarrow> pyval \<Rightarrow> pstate
     \<Rightarrow> (error + pyval \<times> summary list) \<times> pstate" where
  "summarize_results w querySearch specLimit car_type doc_limit results resultsSpecs s =
     (let items = unwrap_web (normalize_results results);
          SpecsItems = normalize_results resultsSpecs
      in case py_iter items of
          Inl e \<Rightarrow> (Inl e, s)
        | Inr item_list \<Rightarrow>
          (case doc_loop w doc_limit item_list [] s of
             (Inl e, s1) \<Rightarrow> (Inl e, s1)
           | (Inr summaries, s1) \<Rightarrow>
             (case bindE (py_iter_prefix SpecsItems specLimit) (\<lambda>xs. spec_loop xs [] []) of
                Inl e \<Rightarrow> (Inl e, s1)
              | Inr (specs_texts, specs_urls) \<Rightarrow>
                (case (if specs_texts \<noteq> []
                       then extract_specs_from_docs w specs_texts specs_urls s1
                       else (Inr (PList []), s1)) of
                   (Inl e, s2) \<Rightarrow> (Inl e, s2)
                 | (Inr specs_structured, s2) \<Rightarrow>
                   let specsDoc = (if specs_texts \<noteq> [] then json_dumps w specs_structured
                                   else ''No specs found.'');
                       car_label = (case car_type of
                                      None \<Rightarrow> querySearch
                                    | Some c \<Rightarrow> if c \<noteq> [] then c else querySearch)
                   in (case generate w (Synthesize car_label summaries specsDoc) s2 of
                         (Inl e, s3) \<Rightarrow> (Inl e, s3)
                       | (Inr final_text, s3) \<Rightarrow> (Inr (final_text, summaries), s3))))))"

definition search_and_summarize ::
  "world \<Rightarrow> string \<Rightarrow> string \<Rightarrow> int \<Rightarrow> int \<Rightarrow> refdict option \<Rightarrow> int \<Rightarrow> string option \<Rightarrow> pstate
     \<Rightarrow> (error + pyval \<times> summary list) \<times> pstate" where
  "search_and_summarize w querySearch querySpecs searchLimit specLimit scrape_options
       max_genai_calls car_type s =
     (let (opts, s0) =
            (case scrape_options of
               None \<Rightarrow> dict_copy DEFAULT_SCRAPE_OPTS s
             | Some so \<Rightarrow>
                 if so \<noteq> []
                 then (let (r, s') = dict_copy DEFAULT_SCRAPE_OPTS s in (r, dict_update r so s'))
                 else dict_copy DEFAULT_SCRAPE_OPTS s);
          allowed_doc_calls = max 0 (max_genai_calls - 2);
          doc_limit = min searchLimit allowed_doc_calls
      in case search w querySearch doc_limit opts s0 of
          (Inl e, s1) \<Rightarrow> (Inl e, s1)
        | (Inr results, s1) \<Rightarrow>
          (case search w querySpecs specLimit opts s1 of
             (Inl e, s2) \<Rightarrow> (Inl e, s2)
           | (Inr resultsSpecs, s2) \<Rightarrow>
               summarize_results w querySearch specLimit car_type doc_limit
                 results resultsSpecs s2))"

text \<open>The number of document-summary requests among the requests issued.\<close>

fun is_doc_call :: "request \<Rightarrow> bool" where
  "is_doc_call (SummarizeDoc t u) = True"
| "is_doc_call r = False"

definition doc_calls :: "pstate \<Rightarrow> nat" where
  "doc_calls s = length (filter is_doc_call (genai_calls s))"

section \<open>Notions used to state the properties\<close>

subsection \<open>URL resolution\<close>

text \<open>
  The URL resolution in the words of the specification: of the candidate fields, in
  the order given, the first non-empty one wins; otherwise the result is null.
\<close>

fun first_nonempty :: "pyval list \<Rightarrow> pyval" where
  "first_nonempty [] = PNone"
| "first_nonempty (v # vs) = (if truthy v then v else first_nonempty vs)"

text \<open>
  The nested metadata of a dict-shaped item, \<open>item.get("metadata") or {}\<close>; whether it is
  a dict; a field of it; and the candidate fields of the item in the order of the
  specification.
\<close>

definition metadata_of :: "pydict \<Rightarrow> pyval" where
  "metadata_of d = py_or (dict_get d ''metadata'' PNone) (PDict [])"

definition well_formed_metadata :: "pydict \<Rightarrow> bool" where
  "well_formed_metadata d = (case metadata_of d of PDict m \<Rightarrow> True | _ \<Rightarrow> False)"

definition metadata_field :: "pydict \<Rightarrow> string \<Rightarrow> pyval" where
  "metadata_field d k = (case metadata_of d of PDict m \<Rightarrow> dict_get m k PNone | _ \<Rightarrow> PNone)"

definition url_candidates :: "pydict \<Rightarrow> pyval list" where
  "url_candidates d =
     [dict_get d ''url'' PNone, dict_get d ''sourceURL'' PNone,
      metadata_field d ''sourceURL'', metadata_field d ''url'', metadata_field d ''source_url'']"

subsection \<open>Items and runs\<close>

text \<open>
  An item normalizes when both getters return and the markdown is a string. Its
  normalized markdown is empty when both getters return and the markdown is a false
  value. It has markdown when the markdown getter returns a true value.
\<close>

definition normalizes :: "pyval \<Rightarrow> bool" where
  "normalizes item =
     (case safe_get_url item of
        Inl e \<Rightarrow> False
      | Inr url \<Rightarrow> (case safe_get_markdown item of Inr (PStr t) \<Rightarrow> True | _ \<Rightarrow> False))"

definition normalized_markdown_empty :: "pyval \<Rightarrow> bool" where
  "normalized_markdown_empty item =
     (case safe_get_url item of
        Inl e \<Rightarrow> False
      | Inr url \<Rightarrow> (case safe_get_markdown item of Inl e \<Rightarrow> False | Inr md \<Rightarrow> \<not> truthy md))"

definition has_markdown :: "pyval \<Rightarrow> bool" where
  "has_markdown item = (case safe_get_markdown item of Inl e \<Rightarrow> False | Inr md \<Rightarrow> truthy md)"

text \<open>
  The options dict after the merge of the caller's overrides onto the defaults, the
  state after the copy has been allocated and updated, and the contents of the options
  that the first search receives.
\<close>

definition merged_opts :: "refdict option \<Rightarrow> refdict \<Rightarrow> refdict" where
  "merged_opts scrape_options dflt =
     (case scrape_options of
        None \<Rightarrow> dflt
      | Some so \<Rightarrow> foldl (\<lambda>d (k, v). dict_set d k v) dflt so)"

definition opts_state :: "refdict option \<Rightarrow> pstate \<Rightarrow> pstate" where
  "opts_state so s =
     s\<lparr>dicts := (dicts s)(next_ref s := merged_opts so (dicts s DEFAULT_SCRAPE_OPTS)),
       next_ref := Suc (next_ref s)\<rparr>"

definition options_value :: "refdict option \<Rightarrow> pstate \<Rightarrow> pydict" where
  "options_value so s =
     map (\<lambda>kc. (fst kc, cells s (snd kc))) (merged_opts so (dicts s DEFAULT_SCRAPE_OPTS))"


text \<open>The state after the loop over the review results.\<close>

definition doc_state :: "world \<Rightarrow> int \<Rightarrow> pyval \<Rightarrow> pstate \<Rightarrow> pstate" where
  "doc_state w doc_limit results s =
     (case py_iter (unwrap_web (normalize_results results)) of
        Inl e \<Rightarrow> s
      | Inr item_list \<Rightarrow> snd (doc_loop w doc_limit item_list [] s))"

text \<open>
  What \<open>extract_specs_from_docs\<close> makes of a response text, and the specification
  documents that can reach the final prompt.
\<close>

definition parsed_or_raw :: "world \<Rightarrow> pyval \<Rightarrow> pyval" where
  "parsed_or_raw w text =
     (case json_loads w text of Some parsed \<Rightarrow> parsed | None \<Rightarrow> PDict [(''raw'', text)])"

definition spec_document :: "world \<Rightarrow> string \<Rightarrow> bool" where
  "spec_document w doc =
     (doc = ''No specs found.''
      \<or> (\<exists>r. doc = json_dumps w (parsed_or_raw w (response_text r))))"

text \<open>
  Conditions on the backends: every document summary is a true value (a non-empty
  text); every search returns a list of items that normalize; the completion backend
  answers every request.
\<close>

definition summaries_nonempty :: "world \<Rightarrow> bool" where
  "summaries_nonempty w =
     (\<forall>i t u r. generate_content w i (SummarizeDoc t u) = Inr r \<longrightarrow> truthy (response_text r))"

definition search_well_formed :: "world \<Rightarrow> bool" where
  "search_well_formed w =
     (\<forall>i q l opts. \<exists>xs. firecrawl_search w i q l opts = Inr (PList xs) \<and> list_all normalizes xs)"

definition backend_answers :: "world \<Rightarrow> bool" where
  "backend_answers w = (\<forall>i req. \<exists>r. generate_content w i req = Inr r)"

subsection \<open>Example inputs\<close>

definition nested_url_item :: pydict where
  "nested_url_item = [(''url'', PStr []), (''metadata'', PDict [(''url'', PStr ''u'')])]"

definition direct_url_item :: pydict where
  "direct_url_item = [(''url'', PStr ''u''), (''metadata'', PStr ''x'')]"

definition og_url_attrs :: pydict where
  "og_url_attrs = [(''metadata'', PObj True [(''og_url'', PStr ''o'')])]"

definition doc_with_text :: pyval where
  "doc_with_text = PDict [(''url'', PStr ''u1''), (''markdown'', PStr ''text'')]"

definition three_docs :: "pyval list" where
  "three_docs =
     [PDict [(''url'', PStr ''u1''), (''markdown'', PStr ''one'')],
      PDict [(''sourceURL'', PStr ''u2''), (''data'', PDict [(''markdown'', PStr ''two'')])],
      PObj True [(''markdown'', PStr ''three''),
                 (''metadata'', PObj True [(''og_url'', PStr ''u3'')])]]"


definition skip_world :: world where
  "skip_world =
     \<lparr>firecrawl_search = (\<lambda>i q l opts. Inr (PList [])),
      search_writes = (\<lambda>i q l r h. h),
      generate_content = (\<lambda>i r. Inr (Some ''summary'')),
      json_loads = (\<lambda>t. None),
      json_dumps = (\<lambda>v. ''{}'')\<rparr>"

definition one_doc_world :: world where
  "one_doc_world =
     \<lparr>firecrawl_search = (\<lambda>i q l opts. Inr (PList [doc_with_text])),
      search_writes = (\<lambda>i q l r h. h),
      generate_content = (\<lambda>i r. Inr (Some ''summary'')),
      json_loads = (\<lambda>t. None),
      json_dumps = (\<lambda>v. ''{}'')\<rparr>"

definition empty_summary_world :: world where
  "empty_summary_world =
     \<lparr>firecrawl_search = (\<lambda>i q l opts. Inr (PList three_docs)),
      search_writes = (\<lambda>i q l r h. h),
      generate_content = (\<lambda>i r. Inr (Some [])),
      json_loads = (\<lambda>t. None),
      json_dumps = (\<lambda>v. ''{}'')\<rparr>"

text \<open>A search backend that returns at most \<open>limit\<close> results.\<close>

definition limit_world :: world where
  "limit_world =
     \<lparr>firecrawl_search = (\<lambda>i q l opts. Inr (PList (take (nat l) three_docs))),
      search_writes = (\<lambda>i q l r h. h),
      generate_content = (\<lambda>i r. Inr (Some ''summary'')),
      json_loads = (\<lambda>t. None),
      json_dumps = (\<lambda>v. ''{}'')\<rparr>"



text \<open>An item without markdown whose \<open>metadata\<close> is a string, and a backend that returns it.\<close>

definition malformed_empty_item :: pyval where
  "malformed_empty_item = PDict [(''metadata'', PStr ''x''), (''markdown'', PStr [])]"

definition malformed_world :: world where
  "malformed_world =
     \<lparr>firecrawl_search = (\<lambda>i q l opts. Inr (PList [malformed_empty_item])),
      search_writes = (\<lambda>i q l r h. h),
      generate_content = (\<lambda>i r. Inr (Some ''summary'')),
      json_loads = (\<lambda>t. None),
      json_dumps = (\<lambda>v. ''{}'')\<rparr>"

definition budget_world :: world where
  "budget_world =
     \<lparr>firecrawl_search = (\<lambda>i q l opts. Inr (PList three_docs)),
      search_writes = (\<lambda>i q l r h. h),
      generate_content = (\<lambda>i r. Inr (Some ''not json'')),
      json_loads = (\<lambda>t. if t = PStr ''[]'' then Some (PList []) else None),
      json_dumps = (\<lambda>v. ''dumped'')\<rparr>"

section \<open>Properties of the text utilities\<close>

lemma length_lstrip: "length (lstrip s) \<le> length s"
  by (simp add: lstrip_def length_dropWhile_le)

lemma length_rstrip: "length (rstrip s) \<le> length s"
  using length_dropWhile_le [of is_space "rev s"] by (simp add: rstrip_def)

lemma length_strip: "length (strip s) \<le> length s"
  unfolding strip_def using length_rstrip [of "lstrip s"] length_lstrip [of s] by linarith

lemma strip_Nil: "strip [] = []"
  by (simp add: strip_def lstrip_def rstrip_def)

lemma py_slice_prefix: "0 \<le> k \<Longrightarrow> py_slice None (Some k) xs = take (nat k) xs"
  by (cases "nat k \<le> length xs") (simp_all add: py_slice_def clamp_index_def min_def)

lemma py_slice_from: "py_slice (Some (int k)) None xs = drop k xs"
  by (cases "k \<le> length xs") (simp_all add: py_slice_def clamp_index_def min_def)

lemma py_slice_suffix:
  "0 < p \<Longrightarrow> py_slice (Some (- p)) None xs = drop (length xs - nat p) xs"
  by (auto simp add: py_slice_def clamp_index_def Let_def max_def nat_diff_distrib' nat_add_distrib)

lemma length_py_slice_between:
  "0 \<le> a \<Longrightarrow> a \<le> b \<Longrightarrow> length (py_slice (Some a) (Some b) xs) \<le> nat (b - a)"
  by (auto simp add: py_slice_def clamp_index_def Let_def)

lemma rfind_upper: "rfind s sub \<le> int (length s)"
proof (cases "filter (occurs_at s sub) (rev [0..<Suc (length s)])")
  case Nil
  then show ?thesis by (simp add: rfind_def)
next
  case (Cons i js)
  then have "i \<in> set (filter (occurs_at s sub) (rev [0..<Suc (length s)]))" by simp
  then have "i \<in> set (rev [0..<Suc (length s)])" by (simp only: set_filter) blast
  then have "i \<le> length s" by (simp only: set_rev set_upt) simp
  with Cons show ?thesis by (simp add: rfind_def)
qed

lemma chunk_loop_total:
  assumes m: "0 < m"
  shows "\<exists>cs. chunk_loop m t acc = Some (acc @ cs)
           \<and> (\<forall>c \<in> set cs. int (length c) \<le> m) \<and> length cs \<le> length t"
proof (induction "length t" arbitrary: t acc rule: less_induct)
  case less
  show ?case
  proof (cases "t = []")
    case True
    then show ?thesis by (subst chunk_loop.simps) simp
  next
    case False
    define chunk0 where "chunk0 = py_slice None (Some m) t"
    define cut where "cut = rfind chunk0 para_break"
    define chunk where
      "chunk = (if cut > m div 2 then py_slice None (Some cut) t else chunk0)"
    define rest where "rest = lstrip (py_slice (Some (int (length chunk))) None t)"
    have c0: "chunk0 = take (nat m) t"
      using m by (simp add: chunk0_def py_slice_prefix)
    have c0_len: "0 < length chunk0" "int (length chunk0) \<le> m"
      using m False by (auto simp add: c0)
    have cut_le: "cut \<le> int (length chunk0)"
      by (simp add: cut_def rfind_upper)
    have chunk_len: "0 < length chunk \<and> int (length chunk) \<le> m"
    proof (cases "cut > m div 2")
      case True
      then have pos: "0 < cut" using m by linarith
      then have "chunk = take (nat cut) t"
        using True by (simp add: chunk_def py_slice_prefix)
      moreover have "nat cut \<le> length t"
        using cut_le c0 by simp
      ultimately have "length chunk = nat cut" by simp
      then show ?thesis using pos cut_le c0_len by linarith
    next
      case False
      then show ?thesis using c0_len by (simp add: chunk_def)
    qed
    have "length rest \<le> length (drop (length chunk) t)"
      unfolding rest_def py_slice_from by (rule length_lstrip)
    moreover have "length (drop (length chunk) t) = length t - length chunk"
      by simp
    moreover have "0 < length t"
      using False by simp
    ultimately have rest_len: "length rest < length t"
      using chunk_len by linarith
    from less [OF rest_len, of "acc @ [strip chunk]"]
    obtain cs where cs: "chunk_loop m rest (acc @ [strip chunk]) = Some ((acc @ [strip chunk]) @ cs)"
      "\<forall>c \<in> set cs. int (length c) \<le> m" "length cs \<le> length rest"
      by blast
    have step: "chunk_loop m t acc = chunk_loop m rest (acc @ [strip chunk])"
      using False
      by (subst chunk_loop.simps) (simp add: Let_def chunk0_def cut_def chunk_def rest_def)
    have "int (length (strip chunk)) \<le> m"
      using length_strip [of chunk] chunk_len by linarith
    with cs rest_len step show ?thesis
      by (intro exI [of _ "strip chunk # cs"]) auto
  qed
qed

lemma chunk_loop_diverges: "chunk_loop 0 ''a'' acc = None"
proof (cases "chunk_loop 0 ''a'' acc")
  case None
  then show ?thesis .
next
  case (Some y)
  have "\<not> ((0::int) = 0 \<and> ''a'' = ''a'')"
  proof (rule chunk_loop.raw_induct
      [where P = "\<lambda>m t acc y. \<not> (m = 0 \<and> t = ''a'')", OF _ Some])
    fix f :: "int \<Rightarrow> string \<Rightarrow> string list \<Rightarrow> string list option"
    fix m t acc y
    assume ih: "\<And>m t acc y. f m t acc = Some y \<Longrightarrow> \<not> (m = 0 \<and> t = ''a'')"
    assume step: "(if t = [] then Some acc
        else let chunk0 = py_slice None (Some m) t;
                 cut = rfind chunk0 para_break;
                 chunk = if m div 2 < cut then py_slice None (Some cut) t else chunk0
             in f m (lstrip (py_slice (Some (int (length chunk))) None t))
                  (acc @ [strip chunk])) = Some y"
    show "\<not> (m = 0 \<and> t = ''a'')"
    proof
      assume a: "m = 0 \<and> t = ''a''"
      have "f 0 ''a'' (acc @ [strip []]) = Some y"
        using step a
        by (simp add: Let_def py_slice_def clamp_index_def rfind_def occurs_at_def para_break_def
            lstrip_def is_space_def)
      from ih [OF this] show False by simp
    qed
  qed
  then show ?thesis by simp
qed


lemma sep_lengths:
  "length sep_start = 13" "length sep_middle = 14" "length sep_end = 11"
  by (simp_all add: sep_start_def sep_middle_def sep_end_def para_break_def)

lemma compress_short:
  "int (length (strip t)) \<le> m \<Longrightarrow> compress_for_single_request t m = strip t"
  by (simp add: compress_for_single_request_def strip_Nil)

lemma compress_long:
  assumes "m < int (length (strip t))" and "t \<noteq> []"
  shows "compress_for_single_request t m =
           sep_start @ py_slice None (Some (m div 3)) (strip t)
           @ sep_middle
           @ py_slice (Some (int (length (strip t)) div 2 - m div 3 div 2))
                      (Some (int (length (strip t)) div 2 + m div 3 div 2)) (strip t)
           @ sep_end @ py_slice (Some (- (m div 3))) None (strip t)"
proof -
  from assms show ?thesis
    by (simp add: compress_for_single_request_def Let_def)
qed

lemma compress_parts_length:
  assumes m: "3 \<le> m" and long: "m < int (length s)"
  shows "int (length (py_slice None (Some (m div 3)) s))
         + int (length (py_slice (Some (int (length s) div 2 - m div 3 div 2))
                                 (Some (int (length s) div 2 + m div 3 div 2)) s))
         + int (length (py_slice (Some (- (m div 3))) None s)) \<le> m"
proof -
  define p where "p = m div 3"
  have p: "0 < p" "3 * p \<le> m"
    using m by (simp_all add: p_def pos_imp_zdiv_pos_iff)
  have a: "int (length (py_slice None (Some p) s)) \<le> p"
    using p by (simp add: py_slice_prefix)
  have "0 \<le> int (length s) div 2 - p div 2"
    using p long by linarith
  moreover have "int (length s) div 2 - p div 2 \<le> int (length s) div 2 + p div 2"
    using p by simp
  ultimately have "length (py_slice (Some (int (length s) div 2 - p div 2))
                     (Some (int (length s) div 2 + p div 2)) s)
                   \<le> nat ((int (length s) div 2 + p div 2) - (int (length s) div 2 - p div 2))"
    by (rule length_py_slice_between)
  then have b: "int (length (py_slice (Some (int (length s) div 2 - p div 2))
                     (Some (int (length s) div 2 + p div 2)) s)) \<le> p"
    using p by linarith
  have c: "int (length (py_slice (Some (- p)) None s)) \<le> p"
    using p by (simp add: py_slice_suffix)
  from a b c p show ?thesis
    unfolding p_def by linarith
qed

lemma chunk_loop_Nil: "chunk_loop m [] acc = Some acc"
  by (subst chunk_loop.simps) simp

lemma chunk_loop_Cons:
  "chunk_loop m (c # cs) acc =
     (let chunk0 = py_slice None (Some m) (c # cs);
          cut = rfind chunk0 para_break;
          chunk = (if cut > m div 2 then py_slice None (Some cut) (c # cs) else chunk0)
      in chunk_loop m (lstrip (py_slice (Some (int (length chunk))) None (c # cs)))
           (acc @ [strip chunk]))"
  by (subst chunk_loop.simps) simp

lemma is_space_simps: "is_space CHR '' ''" "\<not> is_space CHR ''a''" "\<not> is_space CHR ''b''"
   "\<not> is_space CHR ''c''"
  by code_simp+

lemma py_slice_between:
  "0 \<le> a \<Longrightarrow> 0 \<le> b \<Longrightarrow>
     py_slice (Some a) (Some b) xs = take (nat b - nat a) (drop (nat a) xs)"
  by (cases "nat a \<le> length xs"; cases "nat b \<le> length xs")
    (auto simp add: py_slice_def clamp_index_def Let_def min_def)

lemma compress_slices:
  assumes m: "3 \<le> m" and long: "m < int (length (strip t))"
  shows "compress_for_single_request t m =
           sep_start @ take (nat (m div 3)) (strip t)
           @ sep_middle
           @ take (2 * (nat (m div 3) div 2))
               (drop (length (strip t) div 2 - nat (m div 3) div 2) (strip t))
           @ sep_end @ drop (length (strip t) - nat (m div 3)) (strip t)"
proof -
  define p where "p = m div 3"
  define s where "s = strip t"
  have p: "0 < p" "3 * p \<le> m"
    using m by (simp_all add: p_def pos_imp_zdiv_pos_iff)
  have ne: "t \<noteq> []"
    using long m by (auto simp add: strip_Nil)
  have a: "0 \<le> int (length s) div 2 - p div 2"
    using p long unfolding s_def by linarith
  have b: "0 \<le> int (length s) div 2 + p div 2"
    using p by simp
  have n1: "nat (int (length s) div 2 - p div 2) = length s div 2 - nat p div 2"
    using p a by (simp add: nat_diff_distrib nat_div_distrib zdiv_int)
  have n2: "nat (int (length s) div 2 + p div 2) - nat (int (length s) div 2 - p div 2)
              = 2 * (nat p div 2)"
  proof -
    have "int (nat (int (length s) div 2 + p div 2) - nat (int (length s) div 2 - p div 2))
            = 2 * (p div 2)"
      using a b p by simp
    also have "\<dots> = int (2 * (nat p div 2))"
      using p by (simp add: zdiv_int)
    finally show ?thesis by linarith
  qed
  show ?thesis
    unfolding compress_long [OF long ne] p_def [symmetric] s_def [symmetric]
    using p by (simp add: py_slice_prefix py_slice_suffix py_slice_between [OF a b] n1 n2 [unfolded n1])
qed

section \<open>Claims about the text utilities\<close>

text \<open>
  C2 (amended). For every text and every positive budget: when the trimmed text fits
  the budget, the result of the single-request compressor has at most \<open>max_chars\<close>
  characters. When it does not, the result is three slices of the trimmed text joined
  by the three separators: \<open>text[:part]\<close>, \<open>text[mid - part//2 : mid + part//2]\<close> and
  \<open>text[-part:]\<close> with \<open>part = max_chars // 3\<close> and \<open>mid = len(text) // 2\<close>. For a budget of
  at least 3 these are the first \<open>part\<close> characters, \<open>2 * (part // 2)\<close> characters from
  \<open>mid - part//2\<close> on, and the last \<open>part\<close> characters, and the result has at most
  \<open>max_chars + 38\<close> characters, 38 being the length of the separators.
\<close>

theorem compress_length_bound:
  "(0 < m \<and> int (length (strip t)) \<le> m
      \<longrightarrow> int (length (compress_for_single_request t m)) \<le> m)
   \<and> (0 < m \<and> m < int (length (strip t)) \<longrightarrow>
        compress_for_single_request t m =
          sep_start @ py_slice None (Some (m div 3)) (strip t)
          @ sep_middle
          @ py_slice (Some (int (length (strip t)) div 2 - m div 3 div 2))
                     (Some (int (length (strip t)) div 2 + m div 3 div 2)) (strip t)
          @ sep_end @ py_slice (Some (- (m div 3))) None (strip t))
   \<and> (3 \<le> m \<and> m < int (length (strip t)) \<longrightarrow>
        compress_for_single_request t m =
          sep_start @ take (nat (m div 3)) (strip t)
          @ sep_middle
          @ take (2 * (nat (m div 3) div 2))
              (drop (length (strip t) div 2 - nat (m div 3) div 2) (strip t))
          @ sep_end @ drop (length (strip t) - nat (m div 3)) (strip t))
   \<and> (3 \<le> m \<longrightarrow> int (length (compress_for_single_request t m)) \<le> m + 38)"
proof (intro conjI impI)
  assume "0 < m \<and> int (length (strip t)) \<le> m"
  then show "int (length (compress_for_single_request t m)) \<le> m"
    by (simp add: compress_short)
next
  assume a: "0 < m \<and> m < int (length (strip t))"
  then have long: "m < int (length (strip t))"
    by simp
  from a have ne: "t \<noteq> []"
    by (auto simp add: strip_Nil)
  show "compress_for_single_request t m =
          sep_start @ py_slice None (Some (m div 3)) (strip t)
          @ sep_middle
          @ py_slice (Some (int (length (strip t)) div 2 - m div 3 div 2))
                     (Some (int (length (strip t)) div 2 + m div 3 div 2)) (strip t)
          @ sep_end @ py_slice (Some (- (m div 3))) None (strip t)"
    by (rule compress_long [OF long ne])
next
  assume "3 \<le> m \<and> m < int (length (strip t))"
  then show "compress_for_single_request t m =
          sep_start @ take (nat (m div 3)) (strip t)
          @ sep_middle
          @ take (2 * (nat (m div 3) div 2))
              (drop (length (strip t) div 2 - nat (m div 3) div 2) (strip t))
          @ sep_end @ drop (length (strip t) - nat (m div 3)) (strip t)"
    by (simp add: compress_slices)
next
  assume m: "3 \<le> m"
  show "int (length (compress_for_single_request t m)) \<le> m + 38"
  proof (cases "int (length (strip t)) \<le> m")
    case True
    then show ?thesis by (simp add: compress_short)
  next
    case False
    then have long: "m < int (length (strip t))" by simp
    then have ne: "t \<noteq> []" using m by (auto simp add: strip_Nil)
    from compress_parts_length [OF m long] show ?thesis
      by (simp add: compress_long [OF long ne] sep_lengths)
  qed
qed

theorem compress_length_bound_witness:
  "(0 < (3::int) \<and> int (length (strip ''ab   '')) \<le> 3)
   \<and> int (length (compress_for_single_request ''ab   '' 3)) \<le> 3
   \<and> ((3::int) \<le> 3 \<and> 3 < int (length (strip ''abcd'')))
   \<and> compress_for_single_request ''abcd'' 3
       = sep_start @ ''a'' @ sep_middle @ [] @ sep_end @ ''d''
   \<and> int (length (compress_for_single_request ''abcd'' 3)) \<le> 3 + 38"
proof -
  have h1: "0 < (3::int) \<and> int (length (strip ''ab   '')) \<le> 3"
    by code_simp
  have h2: "(3::int) \<le> 3 \<and> 3 < int (length (strip ''abcd''))"
    by code_simp
  have v: "sep_start @ take (nat (3 div 3)) (strip ''abcd'')
          @ sep_middle
          @ take (2 * (nat (3 div 3) div 2))
              (drop (length (strip ''abcd'') div 2 - nat (3 div 3) div 2) (strip ''abcd''))
          @ sep_end @ drop (length (strip ''abcd'') - nat (3 div 3)) (strip ''abcd'')
        = sep_start @ ''a'' @ sep_middle @ [] @ sep_end @ ''d''"
    by code_simp
  from compress_length_bound [of 3 "''ab   ''"] h1
  have c1: "int (length (compress_for_single_request ''ab   '' 3)) \<le> 3"
    by blast
  from compress_length_bound [of 3 "''abcd''"] h2
  have "compress_for_single_request ''abcd'' 3 =
          sep_start @ take (nat (3 div 3)) (strip ''abcd'')
          @ sep_middle
          @ take (2 * (nat (3 div 3) div 2))
              (drop (length (strip ''abcd'') div 2 - nat (3 div 3) div 2) (strip ''abcd''))
          @ sep_end @ drop (length (strip ''abcd'') - nat (3 div 3)) (strip ''abcd'')"
    by blast
  with v have c2: "compress_for_single_request ''abcd'' 3
       = sep_start @ ''a'' @ sep_middle @ [] @ sep_end @ ''d''"
    by (simp only:)
  from compress_length_bound [of 3 "''abcd''"] h2
  have c3: "int (length (compress_for_single_request ''abcd'' 3)) \<le> 3 + 38"
    by blast
  from h1 h2 c1 c2 c3 show ?thesis
    by blast
qed

text \<open>
  The claim as stated fails at the text \<open>abcd\<close> with budget 3: the result is the three
  separators around \<open>a\<close> and \<open>d\<close>, 40 characters.
\<close>

theorem compress_length_counterexample:
  "0 < (3::int) \<and> \<not> int (length (compress_for_single_request ''abcd'' 3)) \<le> 3"
  by code_simp

text \<open>
  C3 (amended). A text whose length (hence whose trimmed length) is at most the budget is
  returned trimmed. A non-empty text whose trimmed length exceeds the budget yields a
  result that contains the markers \<open>--START--\<close>, \<open>--MIDDLE--\<close> and \<open>--END--\<close>, and, when the
  budget is at least 3, has at most budget plus separator overhead characters.
\<close>

theorem compress_shape:
  "(int (length t) \<le> m \<longrightarrow> compress_for_single_request t m = strip t)
   \<and> (int (length (strip t)) \<le> m \<longrightarrow> compress_for_single_request t m = strip t)
   \<and> (t \<noteq> [] \<and> m < int (length (strip t)) \<longrightarrow>
        sublist ''--START--'' (compress_for_single_request t m)
      \<and> sublist ''--MIDDLE--'' (compress_for_single_request t m)
      \<and> sublist ''--END--'' (compress_for_single_request t m)
      \<and> (3 \<le> m \<longrightarrow> int (length (compress_for_single_request t m))
                       \<le> m + int (length sep_start + length sep_middle + length sep_end)))"
proof (intro conjI impI)
  assume "int (length t) \<le> m"
  then have "int (length (strip t)) \<le> m"
    using length_strip [of t] by linarith
  then show "compress_for_single_request t m = strip t"
    by (rule compress_short)
next
  assume "int (length (strip t)) \<le> m"
  then show "compress_for_single_request t m = strip t"
    by (rule compress_short)
next
  assume "t \<noteq> [] \<and> m < int (length (strip t))"
  then have long: "m < int (length (strip t))" and ne: "t \<noteq> []" by simp_all
  show "sublist ''--START--'' (compress_for_single_request t m)"
    unfolding compress_long [OF long ne] sep_start_def sublist_def
    by (rule exI [of _ para_break], rule exI) simp
next
  assume "t \<noteq> [] \<and> m < int (length (strip t))"
  then have long: "m < int (length (strip t))" and ne: "t \<noteq> []" by simp_all
  show "sublist ''--MIDDLE--'' (compress_for_single_request t m)"
    unfolding compress_long [OF long ne] sep_middle_def sublist_def
    by (rule exI [of _ "sep_start @ py_slice None (Some (m div 3)) (strip t) @ para_break"],
        rule exI) simp
next
  assume "t \<noteq> [] \<and> m < int (length (strip t))"
  then have long: "m < int (length (strip t))" and ne: "t \<noteq> []" by simp_all
  show "sublist ''--END--'' (compress_for_single_request t m)"
    unfolding compress_long [OF long ne] sep_end_def sublist_def
    by (rule exI [of _ "sep_start @ py_slice None (Some (m div 3)) (strip t) @ sep_middle
          @ py_slice (Some (int (length (strip t)) div 2 - m div 3 div 2))
                      (Some (int (length (strip t)) div 2 + m div 3 div 2)) (strip t)
          @ para_break"], rule exI) simp
next
  assume "t \<noteq> [] \<and> m < int (length (strip t))" and m: "3 \<le> m"
  then have long: "m < int (length (strip t))" and ne: "t \<noteq> []" by simp_all
  from compress_parts_length [OF m long]
  show "int (length (compress_for_single_request t m))
          \<le> m + int (length sep_start + length sep_middle + length sep_end)"
    by (simp add: compress_long [OF long ne] sep_lengths)
qed

theorem compress_shape_witness:
  "int (length ''ab'') \<le> 3 \<and> compress_for_single_request ''ab'' 3 = strip ''ab''
   \<and> int (length (strip ''ab   '')) \<le> 3
   \<and> compress_for_single_request ''ab   '' 3 = strip ''ab   ''
   \<and> (''abcd'' \<noteq> [] \<and> 3 < int (length (strip ''abcd'')) \<and> (3::int) \<le> 3)
   \<and> sublist ''--START--'' (compress_for_single_request ''abcd'' 3)
   \<and> sublist ''--MIDDLE--'' (compress_for_single_request ''abcd'' 3)
   \<and> sublist ''--END--'' (compress_for_single_request ''abcd'' 3)
   \<and> int (length (compress_for_single_request ''abcd'' 3))
        \<le> 3 + int (length sep_start + length sep_middle + length sep_end)"
proof -
  have h1: "int (length ''ab'') \<le> 3"
    by simp
  have h2: "int (length (strip ''ab   '')) \<le> 3"
    by code_simp
  have h3: "''abcd'' \<noteq> [] \<and> 3 < int (length (strip ''abcd'')) \<and> (3::int) \<le> 3"
    by code_simp
  from compress_shape [of "''ab''" 3] h1
  have c1: "compress_for_single_request ''ab'' 3 = strip ''ab''"
    by blast
  from compress_shape [of "''ab   ''" 3] h2
  have c2: "compress_for_single_request ''ab   '' 3 = strip ''ab   ''"
    by blast
  from compress_shape [of "''abcd''" 3] h3
  have c3: "sublist ''--START--'' (compress_for_single_request ''abcd'' 3)
      \<and> sublist ''--MIDDLE--'' (compress_for_single_request ''abcd'' 3)
      \<and> sublist ''--END--'' (compress_for_single_request ''abcd'' 3)
      \<and> int (length (compress_for_single_request ''abcd'' 3))
        \<le> 3 + int (length sep_start + length sep_middle + length sep_end)"
    by blast
  from h1 h2 h3 c1 c2 c3 show ?thesis
    by blast
qed

text \<open>
  The claim as stated compares the untrimmed length with the budget: \<open>ab\<close> followed by
  three spaces is longer than 3, yet it is returned as \<open>ab\<close> with no marker. With budget 2
  the slice width is 0 and \<open>text[-0:]\<close> is the whole text, so the result exceeds the
  budget plus the separators.
\<close>

theorem compress_shape_counterexample:
  "int (length ''ab   '') > 3
   \<and> \<not> sublist ''--START--'' (compress_for_single_request ''ab   '' 3)
   \<and> int (length ''abcdef'') > 2
   \<and> \<not> int (length (compress_for_single_request ''abcdef'' 2))
         \<le> 2 + int (length sep_start + length sep_middle + length sep_end)"
  by code_simp

text \<open>
  C4. For every text and every positive \<open>max_chars\<close>, \<open>chunk_text\<close> returns, and every chunk
  of the returned sequence has at most \<open>max_chars\<close> characters.
\<close>

theorem chunk_text_bounded:
  assumes "0 < m"
  shows "\<exists>cs. chunk_text t m = Some cs \<and> (\<forall>c \<in> set cs. int (length c) \<le> m)"
proof (cases "strip t = []")
  case True
  then show ?thesis by (simp add: chunk_text_def)
next
  case False
  from chunk_loop_total [OF assms, of "strip t" "[]"] False show ?thesis
    by (auto simp add: chunk_text_def)
qed

theorem chunk_text_bounded_witness:
  "(0::int) < 2 \<and> chunk_text ''ab c'' 2 = Some [''ab'', ''c'']
   \<and> (\<exists>cs. chunk_text ''ab c'' 2 = Some cs \<and> (\<forall>c \<in> set cs. int (length c) \<le> 2))"
proof -
  have h: "(0::int) < 2"
    by simp
  have v: "chunk_text ''ab c'' 2 = Some [''ab'', ''c'']"
    by (simp add: chunk_text_def chunk_loop_Nil chunk_loop_Cons Let_def py_slice_def
        clamp_index_def rfind_def occurs_at_def para_break_def strip_def lstrip_def rstrip_def
        is_space_simps)
  from h v chunk_text_bounded [OF h, of "''ab c''"] show ?thesis
    by blast
qed

text \<open>
  C5 (amended). For every text and every positive budget, \<open>chunk_text\<close> terminates with
  exactly one result, a sequence of at most \<open>len(text)\<close> chunks; the result is a function of
  the two arguments alone.
\<close>

theorem chunk_text_terminates:
  assumes "0 < m"
  shows "\<exists>!cs. chunk_text t m = Some cs \<and> length cs \<le> length t"
proof (cases "strip t = []")
  case True
  then have "chunk_text t m = Some [] \<and> length ([] :: string list) \<le> length t"
    by (simp add: chunk_text_def)
  then show ?thesis
    by (intro ex1I [of _ "[]"]) auto
next
  case False
  from chunk_loop_total [OF assms, of "strip t" "[]"]
  obtain cs where "chunk_loop m (strip t) [] = Some cs" "length cs \<le> length (strip t)"
    by auto
  with False length_strip [of t]
  have "chunk_text t m = Some cs \<and> length cs \<le> length t"
    by (simp add: chunk_text_def)
  then show ?thesis
    by (intro ex1I [of _ cs]) auto
qed

theorem chunk_text_terminates_witness:
  "(0::int) < 3 \<and> (\<exists>!cs. chunk_text ''a'' 3 = Some cs \<and> length cs \<le> length ''a'')"
proof -
  have h: "(0::int) < 3"
    by simp
  from h chunk_text_terminates [OF h, of "''a''"] show ?thesis
    by blast
qed

text \<open>
  With budget 0 the loop of \<open>chunk_text\<close> takes the empty chunk from the text \<open>a\<close> and
  leaves the text as it was: it never returns.
\<close>

theorem chunk_text_diverges: "chunk_text ''a'' 0 = None"
proof -
  have "strip ''a'' = ''a''" by code_simp
  then show ?thesis by (simp add: chunk_text_def chunk_loop_diverges)
qed

section \<open>Properties of the normalizer and the orchestrator\<close>

lemma metadata_get_wf:
  "well_formed_metadata d \<Longrightarrow> metadata_get (PDict d) k = Inr (metadata_field d k)"
  by (auto simp add: well_formed_metadata_def metadata_get_def metadata_field_def metadata_of_def
      bindE_def split: pyval.splits)

lemma first_nonempty_PNone: "(first_nonempty cs = PNone) = (\<not> list_ex truthy cs)"
  by (induction cs) auto

lemma url_chain_wf:
  assumes "well_formed_metadata d"
  shows "url_chain (PDict d) =
     Inr (if list_ex truthy (url_candidates d) then first_nonempty (url_candidates d)
          else metadata_field d ''source_url'')"
  using assms
  by (auto simp add: url_chain_def metadata_get_wf or_else_def url_candidates_def)

lemma empty_dict_candidates: "metadata_field [] k = PNone"
  by (simp add: metadata_field_def metadata_of_def dict_get_def py_or_def)

lemma safe_get_url_dict:
  assumes wf: "well_formed_metadata d"
  shows "safe_get_url (PDict d) =
        Inr (if list_ex truthy (url_candidates d) then first_nonempty (url_candidates d)
             else metadata_field d ''source_url'')"
proof (cases "d = []")
  case True
  then show ?thesis
    by (simp add: safe_get_url_def url_candidates_def empty_dict_candidates dict_get_def)
next
  case False
  then show ?thesis
    by (simp add: safe_get_url_def url_chain_wf [OF wf])
qed

lemma url_chain_returns:
  assumes "url_chain (PDict d) = Inr v"
  shows "v = (if list_ex truthy (url_candidates d) then first_nonempty (url_candidates d)
              else metadata_field d ''source_url'')"
proof (cases "well_formed_metadata d")
  case True
  with assms show ?thesis
    by (simp add: url_chain_wf)
next
  case False
  then have "\<exists>e. metadata_get (PDict d) ''sourceURL'' = Inl e"
    by (auto simp add: well_formed_metadata_def metadata_get_def metadata_of_def bindE_def
        py_or_def split: pyval.splits if_splits option.splits)
  then obtain e where "metadata_get (PDict d) ''sourceURL'' = Inl e"
    by blast
  with assms show ?thesis
    by (auto simp add: url_chain_def or_else_def url_candidates_def split: if_splits)
qed

lemma safe_get_url_returns:
  assumes "safe_get_url (PDict d) = Inr v"
  shows "v = (if list_ex truthy (url_candidates d) then first_nonempty (url_candidates d)
              else metadata_field d ''source_url'')"
proof (cases "d = []")
  case True
  with assms show ?thesis
    by (simp add: safe_get_url_def url_candidates_def empty_dict_candidates dict_get_def)
next
  case False
  with assms have "url_chain (PDict d) = Inr v"
    by (simp add: safe_get_url_def)
  then show ?thesis
    by (rule url_chain_returns)
qed

lemma safe_get_url_direct:
  assumes "truthy (dict_get d ''url'' PNone) \<or> truthy (dict_get d ''sourceURL'' PNone)"
  shows "\<exists>v. safe_get_url (PDict d) = Inr v"
proof (cases "d = []")
  case True
  then show ?thesis
    by (simp add: safe_get_url_def)
next
  case False
  with assms show ?thesis
    by (auto simp add: safe_get_url_def url_chain_def or_else_def)
qed

text \<open>
  C6 (amended). For a dict-shaped item on which \<open>safe_get_url\<close> returns, the result is the
  first non-empty value among \<open>url\<close>, \<open>sourceURL\<close>, \<open>metadata.sourceURL\<close>, \<open>metadata.url\<close> and
  \<open>metadata.source_url\<close>, in this order; when none is non-empty it is the value of
  \<open>metadata.source_url\<close>, so the result is null whenever that field is absent or null.
  The getter returns whenever \<open>url\<close> or \<open>sourceURL\<close> is non-empty or \<open>metadata\<close> is absent,
  false or a dict. For an object-shaped item without \<open>url\<close> and \<open>sourceURL\<close> but with a
  metadata object, the attributes \<open>source_url\<close>, \<open>sourceURL\<close>, \<open>url\<close> and \<open>og_url\<close> of the
  metadata are tried in this order.
\<close>

theorem safe_get_url_precedence:
  "(safe_get_url (PDict d) = Inr v \<longrightarrow>
      v = (if list_ex truthy (url_candidates d) then first_nonempty (url_candidates d)
           else metadata_field d ''source_url''))
   \<and> (safe_get_url (PDict d) = Inr v \<and> metadata_field d ''source_url'' = PNone \<longrightarrow>
        v = first_nonempty (url_candidates d))
   \<and> (well_formed_metadata d \<or> truthy (dict_get d ''url'' PNone)
        \<or> truthy (dict_get d ''sourceURL'' PNone) \<longrightarrow>
        (\<exists>u. safe_get_url (PDict d) = Inr u))
   \<and> (\<not> truthy (py_getattr (PObj True attrs) ''url'' PNone)
      \<and> \<not> truthy (py_getattr (PObj True attrs) ''sourceURL'' PNone)
      \<and> truthy (py_getattr (PObj True attrs) ''metadata'' PNone) \<longrightarrow>
        safe_get_url (PObj True attrs) =
          Inr (let md = py_getattr (PObj True attrs) ''metadata'' PNone;
                   cands = [py_getattr md ''source_url'' PNone, py_getattr md ''sourceURL'' PNone,
                            py_getattr md ''url'' PNone, py_getattr md ''og_url'' PNone]
               in if list_ex truthy cands then first_nonempty cands
                  else py_getattr md ''og_url'' PNone))"
proof (intro conjI impI)
  assume "safe_get_url (PDict d) = Inr v"
  then show "v = (if list_ex truthy (url_candidates d) then first_nonempty (url_candidates d)
           else metadata_field d ''source_url'')"
    by (rule safe_get_url_returns)
next
  assume a: "safe_get_url (PDict d) = Inr v \<and> metadata_field d ''source_url'' = PNone"
  then have "\<not> list_ex truthy (url_candidates d) \<Longrightarrow> first_nonempty (url_candidates d) = PNone"
    by (simp add: first_nonempty_PNone)
  with a safe_get_url_returns [of d v] show "v = first_nonempty (url_candidates d)"
    by (cases "list_ex truthy (url_candidates d)") simp_all
next
  assume "well_formed_metadata d \<or> truthy (dict_get d ''url'' PNone)
        \<or> truthy (dict_get d ''sourceURL'' PNone)"
  then show "\<exists>u. safe_get_url (PDict d) = Inr u"
    using safe_get_url_dict [of d] safe_get_url_direct [of d] by blast
next
  assume "\<not> truthy (py_getattr (PObj True attrs) ''url'' PNone)
      \<and> \<not> truthy (py_getattr (PObj True attrs) ''sourceURL'' PNone)
      \<and> truthy (py_getattr (PObj True attrs) ''metadata'' PNone)"
  then show "safe_get_url (PObj True attrs) =
          Inr (let md = py_getattr (PObj True attrs) ''metadata'' PNone;
                   cands = [py_getattr md ''source_url'' PNone, py_getattr md ''sourceURL'' PNone,
                            py_getattr md ''url'' PNone, py_getattr md ''og_url'' PNone]
               in if list_ex truthy cands then first_nonempty cands
                  else py_getattr md ''og_url'' PNone)"
    by (auto simp add: safe_get_url_def Let_def py_or_def)
qed

theorem safe_get_url_precedence_witness:
  "safe_get_url (PDict nested_url_item) = Inr (PStr ''u'')
   \<and> metadata_field nested_url_item ''source_url'' = PNone
   \<and> PStr ''u'' = first_nonempty (url_candidates nested_url_item)
   \<and> truthy (dict_get direct_url_item ''url'' PNone)
   \<and> \<not> well_formed_metadata direct_url_item
   \<and> (\<exists>u. safe_get_url (PDict direct_url_item) = Inr u)
   \<and> (\<not> truthy (py_getattr (PObj True og_url_attrs) ''url'' PNone)
      \<and> \<not> truthy (py_getattr (PObj True og_url_attrs) ''sourceURL'' PNone)
      \<and> truthy (py_getattr (PObj True og_url_attrs) ''metadata'' PNone))
   \<and> safe_get_url (PObj True og_url_attrs) = Inr (PStr ''o'')"
proof -
  have h1: "safe_get_url (PDict nested_url_item) = Inr (PStr ''u'')
      \<and> metadata_field nested_url_item ''source_url'' = PNone"
    by code_simp
  have h2: "\<not> truthy (py_getattr (PObj True og_url_attrs) ''url'' PNone)
      \<and> \<not> truthy (py_getattr (PObj True og_url_attrs) ''sourceURL'' PNone)
      \<and> truthy (py_getattr (PObj True og_url_attrs) ''metadata'' PNone)"
    by code_simp
  have h3: "truthy (dict_get direct_url_item ''url'' PNone)
      \<and> \<not> well_formed_metadata direct_url_item"
    by code_simp
  have v2: "(let md = py_getattr (PObj True og_url_attrs) ''metadata'' PNone;
                   cands = [py_getattr md ''source_url'' PNone, py_getattr md ''sourceURL'' PNone,
                            py_getattr md ''url'' PNone, py_getattr md ''og_url'' PNone]
               in if list_ex truthy cands then first_nonempty cands
                  else py_getattr md ''og_url'' PNone) = PStr ''o''"
    by code_simp
  from safe_get_url_precedence [of nested_url_item "PStr ''u''" og_url_attrs] h1
  have c1: "PStr ''u'' = first_nonempty (url_candidates nested_url_item)"
    by blast
  from safe_get_url_precedence [of direct_url_item "PStr ''u''" og_url_attrs] h3
  have c3: "\<exists>u. safe_get_url (PDict direct_url_item) = Inr u"
    by blast
  from safe_get_url_precedence [of nested_url_item "PStr ''u''" og_url_attrs] h2
  have c2: "safe_get_url (PObj True og_url_attrs) =
          Inr (let md = py_getattr (PObj True og_url_attrs) ''metadata'' PNone;
                   cands = [py_getattr md ''source_url'' PNone, py_getattr md ''sourceURL'' PNone,
                            py_getattr md ''url'' PNone, py_getattr md ''og_url'' PNone]
               in if list_ex truthy cands then first_nonempty cands
                  else py_getattr md ''og_url'' PNone)"
    by blast
  from c2 v2 have d2: "safe_get_url (PObj True og_url_attrs) = Inr (PStr ''o'')"
    by (simp only:)
  from h1 h2 h3 c1 c3 d2 show ?thesis
    by blast
qed

text \<open>
  The claim as stated fails at the item \<open>{"metadata": {"source_url": ""}}\<close>: no candidate
  is non-empty, and the result is the empty string, not null.
\<close>

theorem safe_get_url_counterexample:
  "first_nonempty (url_candidates [(''metadata'', PDict [(''source_url'', PStr [])])]) = PNone
   \<and> safe_get_url (PDict [(''metadata'', PDict [(''source_url'', PStr [])])]) \<noteq> Inr PNone"
  by code_simp

text \<open>
  On \<open>None\<close>, booleans, integers, strings, lists and methods the getters return the
  defaults: none of these is a dict or carries the attributes probed.
\<close>

lemma safe_getters_builtin:
  assumes "item = PNone \<or> (\<exists>b. item = PBool b) \<or> (\<exists>i. item = PInt i) \<or> (\<exists>t. item = PStr t)
           \<or> (\<exists>xs. item = PList xs) \<or> (\<exists>r. item = PMeth r)"
  shows "safe_get_url item = Inr PNone \<and> safe_get_markdown item = Inr (PStr [])"
  using assms
  by (auto simp add: safe_get_url_def safe_get_markdown_def py_getattr_def py_hasattr_def
      py_or_def Let_def)

text \<open>
  C7. The getters are meant never to raise. They do on a dict whose \<open>metadata\<close> (for the
  URL) or \<open>data\<close> (for the markdown) is a true value that is not a dict: \<open>.get\<close> is then
  called on a string.
\<close>

theorem safe_getters_raise:
  "safe_get_url (PDict [(''metadata'', PStr ''x'')]) = Inl AttributeError
   \<and> safe_get_markdown (PDict [(''data'', PStr ''x'')]) = Inl AttributeError"
  by code_simp

lemma doc_loop_full:
  "doc_limit \<le> int (length summaries) \<Longrightarrow> doc_loop w doc_limit items summaries s = (Inr summaries, s)"
  by (cases items) simp_all

lemma doc_loop_skip:
  assumes "safe_get_url item = Inr u" "safe_get_markdown item = Inr md" "\<not> truthy md"
  shows "doc_loop w doc_limit (item # items) summaries s = doc_loop w doc_limit items summaries s"
  using assms by (simp add: doc_loop_full)

lemma doc_loop_remove:
  assumes "safe_get_url item = Inr u" "safe_get_markdown item = Inr md" "\<not> truthy md"
  shows "doc_loop w doc_limit (xs @ item # ys) summaries s
         = doc_loop w doc_limit (xs @ ys) summaries s"
proof (induction xs arbitrary: summaries s)
  case Nil
  show ?case using doc_loop_skip [OF assms] by simp
next
  case (Cons x xs)
  show ?case
    by (simp add: Cons.IH split: sum.splits prod.splits)
qed

lemma generate_state:
  "snd (generate w req s) = s\<lparr>genai_calls := genai_calls s @ [req]\<rparr>"
  by (simp add: generate_def)

lemma summarize_document_state:
  "snd (summarize_document w md url s) = s
   \<or> (\<exists>t. md = PStr t \<and> t \<noteq> []
         \<and> snd (summarize_document w md url s)
            = s\<lparr>genai_calls := genai_calls s @ [SummarizeDoc (compress_for_single_request t 20000) url]\<rparr>)"
  by (cases md) (simp_all add: summarize_document_def generate_state)

lemma summarize_document_dicts:
  "dicts (snd (summarize_document w md url s)) = dicts s
   \<and> cells (snd (summarize_document w md url s)) = cells s"
  using summarize_document_state [of w md url s] by auto

lemma doc_loop_dicts:
  "dicts (snd (doc_loop w lim items sums s)) = dicts s
   \<and> cells (snd (doc_loop w lim items sums s)) = cells s"
proof (induction items arbitrary: sums s)
  case Nil
  show ?case by simp
next
  case (Cons item items)
  show ?case
  proof (cases "lim \<le> int (length sums)")
    case True
    then show ?thesis by simp
  next
    case False
    note lim = this
    show ?thesis
    proof (cases "safe_get_url item")
      case (Inl e)
      with lim show ?thesis by simp
    next
      case (Inr url)
      note u = this
      show ?thesis
      proof (cases "safe_get_markdown item")
        case (Inl e)
        with lim u show ?thesis by simp
      next
        case (Inr md)
        note m = this
        show ?thesis
        proof (cases "truthy md")
          case False
          with lim u m show ?thesis by (simp add: Cons.IH)
        next
          case True
          obtain r s' where sd: "summarize_document w md url s = (r, s')"
            by (cases "summarize_document w md url s")
          then have "dicts s' = dicts s \<and> cells s' = cells s"
            using summarize_document_dicts [of w md url s] by simp
          with lim u m True sd show ?thesis
            by (cases r) (simp_all add: Cons.IH)
        qed
      qed
    qed
  qed
qed

lemma generateD:
  "generate w req s = (r, s') \<Longrightarrow> s' = s\<lparr>genai_calls := genai_calls s @ [req]\<rparr>"
  by (auto simp add: generate_def)

lemma extractD:
  "extract_specs_from_docs w texts urls s = (r, s')
     \<Longrightarrow> s' = s\<lparr>genai_calls := genai_calls s @ [ExtractSpecs (zip urls texts)]\<rparr>"
  by (auto simp add: extract_specs_from_docs_def generate_def split: sum.splits option.splits)

lemma doc_loop_dictsD:
  "doc_loop w lim items sums s = (r, s') \<Longrightarrow> dicts s' = dicts s \<and> cells s' = cells s"
  using doc_loop_dicts [of w lim items sums s] by simp

lemma summarize_results_frame:
  "dicts (snd (summarize_results w q sl ct lim results rs s)) = dicts (doc_state w lim results s)
   \<and> cells (snd (summarize_results w q sl ct lim results rs s))
       = cells (doc_state w lim results s)
   \<and> doc_calls (snd (summarize_results w q sl ct lim results rs s))
       = doc_calls (doc_state w lim results s)"
  by (auto simp add: summarize_results_def doc_state_def Let_def doc_calls_def
      split: sum.splits prod.splits if_splits dest!: generateD extractD)


text \<open>
  An item on which the URL getter returns and whose markdown is empty is skipped: the
  loop over the review results, and the orchestrator on a list response, return the
  same result and the same state (hence the same requests and the same summaries) as
  on the list without the item.
\<close>

lemma empty_markdown_skipped_if_url_resolves:
  assumes "normalized_markdown_empty item"
  shows "doc_loop w doc_limit (xs @ item # ys) summaries s
           = doc_loop w doc_limit (xs @ ys) summaries s
         \<and> summarize_results w q sl ct doc_limit (PList (xs @ item # ys)) rs s
           = summarize_results w q sl ct doc_limit (PList (xs @ ys)) rs s"
proof -
  from assms obtain u md where n:
    "safe_get_url item = Inr u" "safe_get_markdown item = Inr md" "\<not> truthy md"
    by (auto simp add: normalized_markdown_empty_def split: sum.splits)
  have "doc_loop w doc_limit (xs @ item # ys) sums t = doc_loop w doc_limit (xs @ ys) sums t"
    for sums t
    by (rule doc_loop_remove [OF n])
  then show ?thesis
    by (simp add: summarize_results_def normalize_results_def unwrap_web_def)
qed

text \<open>
  C9. An item whose normalized markdown is empty is to be skipped without an error. The
  loop calls \<open>safe_get_url\<close> before it tests the markdown, so on the item
  \<open>{"metadata": "x", "markdown": ""}\<close>, whose markdown is empty, the loop and the whole
  call raise \<open>AttributeError\<close> instead of skipping the item.
\<close>

theorem empty_markdown_item_raises:
  "safe_get_markdown malformed_empty_item = Inr (PStr [])
   \<and> safe_get_url malformed_empty_item = Inl AttributeError
   \<and> fst (doc_loop skip_world 5 [malformed_empty_item] [] module_init) = Inl AttributeError
   \<and> fst (search_and_summarize malformed_world ''q'' ''qs'' 5 3 None 10 None module_init)
       = Inl AttributeError"
  by code_simp

lemma searchD:
  "search w q l opts s = (r, s') \<Longrightarrow>
     genai_calls s' = genai_calls s \<and> searches s' = Suc (searches s)
     \<and> r = firecrawl_search w (searches s) q l (dict_value s opts)"
  by (auto simp add: search_def)


lemma merge_options:
  "(case so of
      None \<Rightarrow> dict_copy DEFAULT_SCRAPE_OPTS s
    | Some d \<Rightarrow>
        if d \<noteq> []
        then (let (r, s') = dict_copy DEFAULT_SCRAPE_OPTS s in (r, dict_update r d s'))
        else dict_copy DEFAULT_SCRAPE_OPTS s)
   = (next_ref s, opts_state so s)"
proof (cases so)
  case None
  then show ?thesis
    by (simp add: dict_copy_def merged_opts_def opts_state_def)
next
  case (Some d)
  then show ?thesis
    by (cases "d = []")
      (simp_all add: dict_copy_def dict_update_def merged_opts_def opts_state_def)
qed

lemma search_and_summarize_unfold:
  "search_and_summarize w q qs L sl so N ct s =
     (case search w q (min L (max 0 (N - 2))) (next_ref s) (opts_state so s) of
        (Inl e, s1) \<Rightarrow> (Inl e, s1)
      | (Inr results, s1) \<Rightarrow>
        (case search w qs sl (next_ref s) s1 of
           (Inl e, s2) \<Rightarrow> (Inl e, s2)
         | (Inr resultsSpecs, s2) \<Rightarrow>
             summarize_results w q sl ct (min L (max 0 (N - 2))) results resultsSpecs s2))"
  unfolding search_and_summarize_def merge_options by (simp add: Let_def)

lemma options_value_passed:
  "dict_value (opts_state so s) (next_ref s) = options_value so s"
  by (simp add: dict_value_def opts_state_def options_value_def)







lemma doc_calls_append:
  "doc_calls (s\<lparr>genai_calls := genai_calls s @ [req]\<rparr>)
     = doc_calls s + (if is_doc_call req then 1 else 0)"
  by (simp add: doc_calls_def)

lemma summarize_document_cases:
  assumes "truthy md"
  shows "(\<exists>e. summarize_document w md url s = (Inl e, s) \<and> (\<forall>t. md \<noteq> PStr t))
       \<or> (\<exists>t res. md = PStr t
            \<and> summarize_document w md url s
               = (res, s\<lparr>genai_calls := genai_calls s
                          @ [SummarizeDoc (compress_for_single_request t 20000) url]\<rparr>)
            \<and> (case res of
                 Inl e \<Rightarrow> True
               | Inr v \<Rightarrow> (\<exists>r. generate_content w (length (genai_calls s))
                                (SummarizeDoc (compress_for_single_request t 20000) url) = Inr r
                              \<and> v = response_text r)))"
  using assms
  by (cases md) (auto simp add: summarize_document_def generate_def split: sum.splits)

lemma doc_loop_calls:
  assumes ne: "summaries_nonempty w"
  shows "doc_loop w lim items sums s = (res, s') \<Longrightarrow>
         doc_calls s' \<le> doc_calls s + nat (lim - int (length sums))
         \<and> (\<forall>sums'. res = Inr sums' \<longrightarrow>
               doc_calls s' + length sums = doc_calls s + length sums'
             \<and> (int (length sums) < lim \<longrightarrow>
                  length sums' = min (nat lim) (length sums + length (filter has_markdown items)))
             \<and> (lim \<le> int (length sums) \<longrightarrow> sums' = sums))"
proof (induction items arbitrary: sums s)
  case Nil
  then show ?case by auto
next
  case (Cons item items)
  show ?case
  proof (cases "lim \<le> int (length sums)")
    case True
    with Cons.prems show ?thesis by auto
  next
    case False
    note lim = this
    show ?thesis
    proof (cases "safe_get_url item")
      case (Inl e)
      with lim Cons.prems show ?thesis by auto
    next
      case (Inr url)
      note u = this
      show ?thesis
      proof (cases "safe_get_markdown item")
        case (Inl e)
        with lim u Cons.prems show ?thesis by auto
      next
        case (Inr md)
        note m = this
        show ?thesis
        proof (cases "truthy md")
          case False
          with lim u m Cons.prems have "doc_loop w lim items sums s = (res, s')"
            by simp
          from Cons.IH [OF this] lim False m show ?thesis
            by (simp add: has_markdown_def)
        next
          case True
          then have hm: "has_markdown item"
            using m by (simp add: has_markdown_def)
          from summarize_document_cases [OF True, of w url s]
          show ?thesis
          proof (elim disjE exE conjE)
            fix e
            assume "summarize_document w md url s = (Inl e, s)"
            with lim u m True Cons.prems show ?thesis by auto
          next
            fix t r
            assume md: "md = PStr t"
              and sd: "summarize_document w md url s
                 = (r, s\<lparr>genai_calls := genai_calls s
                          @ [SummarizeDoc (compress_for_single_request t 20000) url]\<rparr>)"
              and r: "case r of
                 Inl e \<Rightarrow> True
               | Inr v \<Rightarrow> (\<exists>r. generate_content w (length (genai_calls s))
                                (SummarizeDoc (compress_for_single_request t 20000) url) = Inr r
                              \<and> v = response_text r)"
            define s1 where "s1 = s\<lparr>genai_calls := genai_calls s
                          @ [SummarizeDoc (compress_for_single_request t 20000) url]\<rparr>"
            have c1: "doc_calls s1 = doc_calls s + 1"
              by (simp add: s1_def doc_calls_append)
            show ?thesis
            proof (cases r)
              case (Inl e)
              with lim u m True sd Cons.prems have "res = Inl e" "s' = s1"
                by (simp_all add: s1_def)
              with c1 lim show ?thesis by auto
            next
              case (Inr v)
              with r ne have tv: "truthy v"
                by (auto simp add: summaries_nonempty_def)
              with lim u m True sd Inr Cons.prems
              have rec: "doc_loop w lim items (sums @ [(url, v)]) s1 = (res, s')"
                by (simp add: s1_def)
              from Cons.IH [OF rec] c1 lim hm show ?thesis
                by (auto simp add: min_def)
            qed
          qed
        qed
      qed
    qed
  qed
qed

lemma summarize_results_Inr:
  assumes "summarize_results w q sl ct lim results rs s = (Inr (report, sums), s')"
  shows "\<exists>l s1. py_iter (unwrap_web (normalize_results results)) = Inr l
           \<and> doc_loop w lim l [] s = (Inr sums, s1) \<and> doc_calls s' = doc_calls s1"
  using assms
  by (auto simp add: summarize_results_def Let_def doc_calls_def
      split: sum.splits prod.splits if_splits dest!: generateD extractD)

lemma py_iter_PList: "py_iter (unwrap_web (normalize_results (PList items))) = Inr items"
  by (simp add: normalize_results_def unwrap_web_def)

lemma summarize_results_calls:
  assumes ne: "summaries_nonempty w"
  shows "doc_calls (snd (summarize_results w q sl ct lim results rs s)) \<le> doc_calls s + nat lim
       \<and> (\<forall>report sums. fst (summarize_results w q sl ct lim results rs s) = Inr (report, sums) \<longrightarrow>
             doc_calls (snd (summarize_results w q sl ct lim results rs s))
               = doc_calls s + length sums
           \<and> (\<forall>items. results = PList items \<longrightarrow>
                 length sums = min (nat lim) (length (filter has_markdown items))))"
proof (intro conjI allI impI)
  show "doc_calls (snd (summarize_results w q sl ct lim results rs s)) \<le> doc_calls s + nat lim"
  proof (cases "py_iter (unwrap_web (normalize_results results))")
    case (Inl e)
    then show ?thesis
      by (simp add: summarize_results_frame doc_state_def)
  next
    case (Inr l)
    obtain r s1 where dl: "doc_loop w lim l [] s = (r, s1)"
      by (cases "doc_loop w lim l [] s")
    from doc_loop_calls [OF ne dl] have "doc_calls s1 \<le> doc_calls s + nat lim"
      by simp
    with Inr dl show ?thesis
      by (simp add: summarize_results_frame doc_state_def)
  qed
next
  fix report sums
  assume ok: "fst (summarize_results w q sl ct lim results rs s) = Inr (report, sums)"
  then have "summarize_results w q sl ct lim results rs s
      = (Inr (report, sums), snd (summarize_results w q sl ct lim results rs s))"
    by (metis prod.collapse)
  from summarize_results_Inr [OF this]
  obtain l s1 where l: "py_iter (unwrap_web (normalize_results results)) = Inr l"
    and dl: "doc_loop w lim l [] s = (Inr sums, s1)"
    and c: "doc_calls (snd (summarize_results w q sl ct lim results rs s)) = doc_calls s1"
    by blast
  from doc_loop_calls [OF ne dl]
  have a: "doc_calls s1 = doc_calls s + length sums"
    and b: "0 < lim \<longrightarrow> length sums = min (nat lim) (length (filter has_markdown l))"
    and z: "lim \<le> 0 \<longrightarrow> sums = []"
    by simp_all
  from a c show "doc_calls (snd (summarize_results w q sl ct lim results rs s))
               = doc_calls s + length sums"
    by simp
  fix items
  assume "results = PList items"
  with l have "l = items"
    by (simp add: py_iter_PList)
  with b z show "length sums = min (nat lim) (length (filter has_markdown items))"
    by (cases "0 < lim") auto
qed

text \<open>
  C1 (amended). When every document summary returned by the completion backend is
  non-empty, a call with \<open>max_genai_calls = N\<close> and \<open>searchLimit = L\<close> issues at most
  \<open>min(L, max(0, N - 2))\<close> document-summary requests. When the call returns, their number
  is the number of summaries returned; and if the review search answered with a list,
  it is the smaller of \<open>min(L, max(0, N - 2))\<close> and the number of results with non-empty
  markdown. The review search is the one the call issues: the query \<open>querySearch\<close> with
  limit \<open>min(L, max(0, N - 2))\<close> and the merged options.
\<close>

theorem doc_call_budget:
  assumes ne: "summaries_nonempty w"
  shows "doc_calls (snd (search_and_summarize w q qs L sl so N ct s))
           \<le> doc_calls s + nat (min L (max 0 (N - 2)))
       \<and> (\<forall>report sums.
            fst (search_and_summarize w q qs L sl so N ct s) = Inr (report, sums) \<longrightarrow>
              doc_calls (snd (search_and_summarize w q qs L sl so N ct s))
                = doc_calls s + length sums
            \<and> (\<forall>items. firecrawl_search w (searches s) q (min L (max 0 (N - 2)))
                         (options_value so s) = Inr (PList items) \<longrightarrow>
                  length sums = min (nat (min L (max 0 (N - 2))))
                                    (length (filter has_markdown items))))"
proof -
  define lim where "lim = min L (max 0 (N - 2))"
  define s0 where "s0 = opts_state so s"
  have s0: "doc_calls s0 = doc_calls s" "searches s0 = searches s"
    by (simp_all add: s0_def opts_state_def doc_calls_def)
  obtain r1 s1 where se1: "search w q lim (next_ref s) s0 = (r1, s1)"
    by (cases "search w q lim (next_ref s) s0")
  then have s1: "doc_calls s1 = doc_calls s"
    using s0 by (auto simp add: doc_calls_def dest!: searchD)
  have r1: "r1 = firecrawl_search w (searches s) q lim (options_value so s)"
    using se1 s0 by (auto simp add: search_def s0_def options_value_passed)
  show ?thesis
  proof (cases r1)
    case (Inl e)
    with se1 s1 show ?thesis
      by (simp add: search_and_summarize_unfold lim_def [symmetric] s0_def [symmetric])
  next
    case (Inr results)
    note res = this
    obtain r2 s2 where se2: "search w qs sl (next_ref s) s1 = (r2, s2)"
      by (cases "search w qs sl (next_ref s) s1")
    then have s2: "doc_calls s2 = doc_calls s"
      using s1 by (auto simp add: doc_calls_def dest!: searchD)
    show ?thesis
    proof (cases r2)
      case (Inl e)
      with se1 se2 res s2 show ?thesis
        by (simp add: search_and_summarize_unfold lim_def [symmetric] s0_def [symmetric])
    next
      case (Inr resultsSpecs)
      with se1 se2 res
      have eq: "search_and_summarize w q qs L sl so N ct s
                = summarize_results w q sl ct lim results resultsSpecs s2"
        by (simp add: search_and_summarize_unfold lim_def [symmetric] s0_def [symmetric])
      have "firecrawl_search w (searches s) q lim (options_value so s) = Inr (PList items)
              \<longrightarrow> results = PList items" for items
        using r1 res by auto
      with summarize_results_calls [OF ne, of q sl ct lim results resultsSpecs s2] s2
      show ?thesis
        unfolding eq lim_def [symmetric] by auto
    qed
  qed
qed

theorem doc_call_budget_witness:
  "summaries_nonempty limit_world
   \<and> fst (search_and_summarize limit_world ''q'' ''qs'' 2 3 None 10 None module_init)
       = Inr (PStr ''summary'', [(PStr ''u1'', PStr ''summary''), (PStr ''u2'', PStr ''summary'')])
   \<and> firecrawl_search limit_world (searches module_init) ''q'' (min 2 (max 0 (10 - 2)))
        (options_value None module_init) = Inr (PList (take 2 three_docs))
   \<and> doc_calls (snd (search_and_summarize limit_world ''q'' ''qs'' 2 3 None 10 None module_init))
       \<le> doc_calls module_init + nat (min 2 (max 0 (10 - 2)))
   \<and> doc_calls (snd (search_and_summarize limit_world ''q'' ''qs'' 2 3 None 10 None module_init))
       = doc_calls module_init + 2
   \<and> (2::nat) = min (nat (min 2 (max 0 (10 - 2))))
                     (length (filter has_markdown (take 2 three_docs)))"
proof -
  have h1: "summaries_nonempty limit_world"
    by (simp add: summaries_nonempty_def limit_world_def response_text_def)
  have h2: "fst (search_and_summarize limit_world ''q'' ''qs'' 2 3 None 10 None module_init)
       = Inr (PStr ''summary'', [(PStr ''u1'', PStr ''summary''), (PStr ''u2'', PStr ''summary'')])"
    by code_simp
  have h3: "firecrawl_search limit_world (searches module_init) ''q'' (min 2 (max 0 (10 - 2)))
        (options_value None module_init) = Inr (PList (take 2 three_docs))"
    by (simp add: limit_world_def)
  from doc_call_budget [OF h1, of "''q''" "''qs''" 2 3 None 10 None module_init] h2 h3
  have "doc_calls (snd (search_and_summarize limit_world ''q'' ''qs'' 2 3 None 10 None module_init))
       \<le> doc_calls module_init + nat (min 2 (max 0 (10 - 2)))
   \<and> doc_calls (snd (search_and_summarize limit_world ''q'' ''qs'' 2 3 None 10 None module_init))
       = doc_calls module_init + 2
   \<and> (2::nat) = min (nat (min 2 (max 0 (10 - 2))))
                     (length (filter has_markdown (take 2 three_docs)))"
    by fastforce
  with h1 h2 h3 show ?thesis
    by blast
qed

text \<open>
  The claim as stated fails when the search returns fewer documents than the limit:
  with \<open>L = 5\<close>, \<open>N = 10\<close> and one result, one request is issued, not five. It also fails
  when the summaries come back empty: the loop counts summaries, so with \<open>L = 1\<close> and
  three results it issues three requests.
\<close>

theorem doc_call_count_counterexample:
  "doc_calls (snd (search_and_summarize one_doc_world ''q'' ''qs'' 5 3 None 10 None module_init))
     - doc_calls module_init
   \<noteq> nat (min 5 (max 0 (10 - 2)))
   \<and> doc_calls (snd (search_and_summarize empty_summary_world ''q'' ''qs'' 1 3 None 10 None
        module_init)) - doc_calls module_init
   \<noteq> nat (min 1 (max 0 (10 - 2)))"
  by code_simp

lemma normalizesD:
  "normalizes item \<Longrightarrow> \<exists>u t. safe_get_url item = Inr u \<and> safe_get_markdown item = Inr (PStr t)"
  by (auto simp add: normalizes_def split: sum.splits pyval.splits)

lemma generate_answers:
  "backend_answers w \<Longrightarrow> \<exists>v. generate w req s = (Inr v, s\<lparr>genai_calls := genai_calls s @ [req]\<rparr>)"
proof -
  assume "backend_answers w"
  then obtain r where "generate_content w (length (genai_calls s)) req = Inr r"
    unfolding backend_answers_def by blast
  then show ?thesis
    by (simp add: generate_def)
qed

lemma doc_loop_ok:
  assumes b: "backend_answers w"
  shows "list_all normalizes items \<Longrightarrow> \<exists>sums' s'. doc_loop w lim items sums s = (Inr sums', s')"
proof (induction items arbitrary: sums s)
  case Nil
  show ?case by simp
next
  case (Cons item items)
  then have n: "normalizes item" and rest: "list_all normalizes items"
    by simp_all
  from normalizesD [OF n] obtain u t where
    u: "safe_get_url item = Inr u" and m: "safe_get_markdown item = Inr (PStr t)"
    by blast
  show ?case
  proof (cases "lim \<le> int (length sums)")
    case True
    then show ?thesis by simp
  next
    case False
    note lim = this
    show ?thesis
    proof (cases "t = []")
      case True
      with lim u m Cons.IH [OF rest, of sums s] show ?thesis by simp
    next
      case False
      from generate_answers [OF b, of "SummarizeDoc (compress_for_single_request t 20000) u" s]
      obtain v where g: "generate w (SummarizeDoc (compress_for_single_request t 20000) u) s
          = (Inr v, s\<lparr>genai_calls := genai_calls s
               @ [SummarizeDoc (compress_for_single_request t 20000) u]\<rparr>)"
        by blast
      with False have sd: "summarize_document w (PStr t) u s
          = (Inr v, s\<lparr>genai_calls := genai_calls s
               @ [SummarizeDoc (compress_for_single_request t 20000) u]\<rparr>)"
        by (simp add: summarize_document_def)
      show ?thesis
      proof (cases "truthy v")
        case True
        with lim u m False sd
          Cons.IH [OF rest, of "sums @ [(u, v)]" "s\<lparr>genai_calls := genai_calls s
               @ [SummarizeDoc (compress_for_single_request t 20000) u]\<rparr>"]
        show ?thesis by simp
      next
        case nv: False
        with lim u m False sd
          Cons.IH [OF rest, of sums "s\<lparr>genai_calls := genai_calls s
               @ [SummarizeDoc (compress_for_single_request t 20000) u]\<rparr>"]
        show ?thesis by simp
      qed
    qed
  qed
qed

lemma spec_loop_ok:
  "list_all normalizes xs \<Longrightarrow> \<exists>ts' us'. spec_loop xs ts us = Inr (ts', us')"
proof (induction xs arbitrary: ts us)
  case Nil
  show ?case by simp
next
  case (Cons x xs)
  then have n: "normalizes x" and rest: "list_all normalizes xs"
    by simp_all
  from normalizesD [OF n] obtain u t where
    "safe_get_url x = Inr u" "safe_get_markdown x = Inr (PStr t)"
    by blast
  with Cons.IH [OF rest] show ?case
    by simp
qed

lemma set_py_slice: "set (py_slice lo hi xs) \<subseteq> set xs"
proof -
  have "set (take n (drop k xs)) \<subseteq> set xs" for n k
    using set_take_subset [of n "drop k xs"] set_drop_subset [of k xs] by blast
  then show ?thesis
    by (simp add: py_slice_def Let_def)
qed

lemma list_all_py_slice: "list_all P xs \<Longrightarrow> list_all P (py_slice lo hi xs)"
  using set_py_slice [of lo hi xs] by (auto simp add: list_all_iff)

lemma extract_specs_result:
  assumes "generate_content w (length (genai_calls s)) (ExtractSpecs (zip urls texts)) = Inr r"
  shows "extract_specs_from_docs w texts urls s =
           (Inr (parsed_or_raw w (response_text r)),
            s\<lparr>genai_calls := genai_calls s @ [ExtractSpecs (zip urls texts)]\<rparr>)"
  using assms
  by (simp add: extract_specs_from_docs_def generate_def parsed_or_raw_def split: option.splits)

lemma extract_specs_ok:
  assumes "backend_answers w"
  shows "\<exists>r s'. extract_specs_from_docs w texts urls s
                  = (Inr (parsed_or_raw w (response_text r)), s')"
proof -
  from assms obtain r where
    "generate_content w (length (genai_calls s)) (ExtractSpecs (zip urls texts)) = Inr r"
    unfolding backend_answers_def by blast
  from extract_specs_result [OF this] show ?thesis
    by blast
qed

lemma summarize_results_ok:
  assumes b: "backend_answers w"
    and items: "list_all normalizes items"
    and specs: "list_all normalizes specs"
  shows "\<exists>report sums s'.
           summarize_results w q sl ct lim (PList items) (PList specs) s
             = (Inr (report, sums), s')
           \<and> (\<exists>label doc. genai_calls s' \<noteq> []
                 \<and> last (genai_calls s') = Synthesize label sums doc
                 \<and> spec_document w doc)"
proof -
  from doc_loop_ok [OF b items] obtain sums s1 where
    dl: "doc_loop w lim items [] s = (Inr sums, s1)"
    by blast
  from spec_loop_ok [OF list_all_py_slice [OF specs]] obtain ts us where
    sl: "spec_loop (py_slice None (Some sl) specs) [] [] = Inr (ts, us)"
    by blast
  obtain v s2 where
    ex: "(if ts \<noteq> [] then extract_specs_from_docs w ts us s1 else (Inr (PList []), s1))
           = (Inr v, s2)"
    and v: "ts \<noteq> [] \<longrightarrow> (\<exists>r. v = parsed_or_raw w (response_text r))"
    using extract_specs_ok [OF b, of ts us s1] by (cases "ts = []") auto
  define specsDoc where
    "specsDoc = (if ts \<noteq> [] then json_dumps w v else ''No specs found.'')"
  define car_label where
    "car_label = (case ct of None \<Rightarrow> q | Some c \<Rightarrow> if c \<noteq> [] then c else q)"
  from generate_answers [OF b, of "Synthesize car_label sums specsDoc" s2] obtain final_text where
    g: "generate w (Synthesize car_label sums specsDoc) s2
          = (Inr final_text, s2\<lparr>genai_calls := genai_calls s2
               @ [Synthesize car_label sums specsDoc]\<rparr>)"
    by blast
  have "summarize_results w q sl ct lim (PList items) (PList specs) s
          = (Inr (final_text, sums),
             s2\<lparr>genai_calls := genai_calls s2 @ [Synthesize car_label sums specsDoc]\<rparr>)"
    unfolding summarize_results_def Let_def
    using dl sl ex g
    by (simp add: normalize_results_def unwrap_web_def bindE_def specsDoc_def car_label_def)
  moreover have "spec_document w specsDoc"
    using v by (auto simp add: spec_document_def specsDoc_def)
  ultimately show ?thesis
    by auto
qed

text \<open>
  C8. \<open>extract_specs_from_docs\<close> returns the parsed value when the response text parses
  as JSON and the wrapper \<open>{"raw": text}\<close> when it does not. Whatever \<open>json.loads\<close> does,
  when the searches return lists of items that normalize and the completion backend
  answers, \<open>search_and_summarize\<close> returns a report and the summaries; the last request is
  the final synthesis, whose specification document is \<open>No specs found.\<close> or the dump of
  the parsed value or of the wrapper.
\<close>

theorem spec_parse_fallback:
  "(generate_content w (length (genai_calls s)) (ExtractSpecs (zip urls texts)) = Inr r \<longrightarrow>
      fst (extract_specs_from_docs w texts urls s)
        = Inr (case json_loads w (response_text r) of
                 Some parsed \<Rightarrow> parsed
               | None \<Rightarrow> PDict [(''raw'', response_text r)]))
   \<and> (search_well_formed w \<and> backend_answers w \<longrightarrow>
        (\<exists>report sums label doc.
           fst (search_and_summarize w q qs L sl so N ct s) = Inr (report, sums)
         \<and> genai_calls (snd (search_and_summarize w q qs L sl so N ct s)) \<noteq> []
         \<and> last (genai_calls (snd (search_and_summarize w q qs L sl so N ct s)))
             = Synthesize label sums doc
         \<and> spec_document w doc))"
proof (intro conjI impI)
  assume "generate_content w (length (genai_calls s)) (ExtractSpecs (zip urls texts)) = Inr r"
  from extract_specs_result [OF this]
  show "fst (extract_specs_from_docs w texts urls s)
        = Inr (case json_loads w (response_text r) of
                 Some parsed \<Rightarrow> parsed
               | None \<Rightarrow> PDict [(''raw'', response_text r)])"
    by (simp add: parsed_or_raw_def)
next
  assume a: "search_well_formed w \<and> backend_answers w"
  then have wf: "search_well_formed w" and b: "backend_answers w"
    by simp_all
  define lim where "lim = min L (max 0 (N - 2))"
  define s0 where "s0 = opts_state so s"
  obtain r1 s1 where se1: "search w q lim (next_ref s) s0 = (r1, s1)"
    by (cases "search w q lim (next_ref s) s0")
  obtain r2 s2 where se2: "search w qs sl (next_ref s) s1 = (r2, s2)"
    by (cases "search w qs sl (next_ref s) s1")
  from wf searchD [OF se1] obtain items where
    i: "r1 = Inr (PList items)" "list_all normalizes items"
    unfolding search_well_formed_def by metis
  from wf searchD [OF se2] obtain specs where
    sp: "r2 = Inr (PList specs)" "list_all normalizes specs"
    unfolding search_well_formed_def by metis
  have eq: "search_and_summarize w q qs L sl so N ct s
      = summarize_results w q sl ct lim (PList items) (PList specs) s2"
    using se1 se2 i(1) sp(1)
    by (simp add: search_and_summarize_unfold lim_def [symmetric] s0_def [symmetric])
  from summarize_results_ok [OF b i(2) sp(2), of q sl ct lim s2]
  show "\<exists>report sums label doc.
           fst (search_and_summarize w q qs L sl so N ct s) = Inr (report, sums)
         \<and> genai_calls (snd (search_and_summarize w q qs L sl so N ct s)) \<noteq> []
         \<and> last (genai_calls (snd (search_and_summarize w q qs L sl so N ct s)))
             = Synthesize label sums doc
         \<and> spec_document w doc"
    unfolding eq by auto
qed

theorem spec_parse_fallback_witness:
  "generate_content budget_world (length (genai_calls module_init))
       (ExtractSpecs (zip [PStr ''u''] [PStr ''spec sheet''])) = Inr (Some ''not json'')
   \<and> fst (extract_specs_from_docs budget_world [PStr ''spec sheet''] [PStr ''u''] module_init)
       = Inr (PDict [(''raw'', PStr ''not json'')])
   \<and> (search_well_formed budget_world \<and> backend_answers budget_world)
   \<and> (\<exists>report sums label doc.
         fst (search_and_summarize budget_world ''q'' ''qs'' 5 3 None 10 None module_init)
           = Inr (report, sums)
       \<and> genai_calls (snd (search_and_summarize budget_world ''q'' ''qs'' 5 3 None 10 None
             module_init)) \<noteq> []
       \<and> last (genai_calls (snd (search_and_summarize budget_world ''q'' ''qs'' 5 3 None 10 None
             module_init))) = Synthesize label sums doc
       \<and> spec_document budget_world doc)"
proof -
  have h1: "generate_content budget_world (length (genai_calls module_init))
       (ExtractSpecs (zip [PStr ''u''] [PStr ''spec sheet''])) = Inr (Some ''not json'')"
    by (simp add: budget_world_def)
  have n: "list_all normalizes three_docs"
    by code_simp
  have h2: "search_well_formed budget_world \<and> backend_answers budget_world"
    using n by (simp add: search_well_formed_def backend_answers_def budget_world_def)
  have j: "json_loads budget_world (response_text (Some ''not json'')) = None"
    by (simp add: budget_world_def response_text_def)
  from spec_parse_fallback [of budget_world module_init "[PStr ''u'']" "[PStr ''spec sheet'']"
      "Some ''not json''" "''q''" "''qs''" 5 3 None 10 None] h1 h2 j
  show ?thesis
    by (simp add: response_text_def)
qed

end
